theory Spec2Isabelle
  imports Complex_Main "HOL-Library.Sublist"
begin

section \<open>Statement text: classification and entity extraction\<close>

text \<open>
  Source: \<^verbatim>\<open>src/src/utils/pgliteConfig.ts\<close>.

  A statement is a JavaScript string. It is modelled as a \<^typ>\<open>string\<close> whose characters
  are the code units \<open>U+0000\<close> to \<open>U+00FF\<close> (Latin-1), so that \<open>toLowerCase\<close>,
  \<open>trim\<close> and the regular expression class \<open>\s\<close> can be written out in full:
  on this range \<open>toLowerCase\<close> maps \<open>A\<close>-\<open>Z\<close> and \<open>U+00C0\<close>-\<open>U+00DE\<close>
  (without the multiplication sign \<open>U+00D7\<close>) to the code unit 32 above, and the white
  space of \<open>trim\<close> and of \<open>\s\<close> is tab, line feed, vertical tab, form feed, carriage
  return, space and no-break space. Statements with code units above \<open>U+00FF\<close> are
  outside the model.
\<close>

definition toLowerChar :: "char \<Rightarrow> char" where
  "toLowerChar c =
     (let n = (of_char c :: nat)
      in if (65 \<le> n \<and> n \<le> 90) \<or> (192 \<le> n \<and> n \<le> 222 \<and> n \<noteq> 215)
         then char_of (n + 32) else c)"

definition toLowerCase :: "string \<Rightarrow> string" where
  "toLowerCase s = map toLowerChar s"

definition isWhiteSpace :: "char \<Rightarrow> bool" where
  "isWhiteSpace c = (of_char c \<in> {9, 10, 11, 12, 13, 32, 160 :: nat})"

definition trim :: "string \<Rightarrow> string" where
  "trim s = rev (dropWhile isWhiteSpace (rev (dropWhile isWhiteSpace s)))"

definition startsWith :: "string \<Rightarrow> string \<Rightarrow> bool" where
  "startsWith s p = (take (length p) s = p)"

text \<open>
  \<^verbatim>\<open>
  function isModifyingQuery(query: string): boolean {
    const lowerQuery = query.toLowerCase().trim();
    return (
      lowerQuery.startsWith("insert") || lowerQuery.startsWith("update") ||
      lowerQuery.startsWith("delete") || lowerQuery.startsWith("create") ||
      lowerQuery.startsWith("alter") || lowerQuery.startsWith("drop") ||
      lowerQuery.startsWith("truncate"));
  }\<close>
\<close>

definition isModifyingQuery :: "string \<Rightarrow> bool" where
  "isModifyingQuery query =
     (let lowerQuery = trim (toLowerCase query)
      in startsWith lowerQuery ''insert'' \<or>
         startsWith lowerQuery ''update'' \<or>
         startsWith lowerQuery ''delete'' \<or>
         startsWith lowerQuery ''create'' \<or>
         startsWith lowerQuery ''alter'' \<or>
         startsWith lowerQuery ''drop'' \<or>
         startsWith lowerQuery ''truncate'')"

text \<open>\<^verbatim>\<open>getQueryAction\<close>: the same prefixes, tested in the same order, name the action.\<close>

definition getQueryAction :: "string \<Rightarrow> string" where
  "getQueryAction query =
     (let lowerQuery = trim (toLowerCase query)
      in if startsWith lowerQuery ''insert'' then ''insert''
         else if startsWith lowerQuery ''update'' then ''update''
         else if startsWith lowerQuery ''delete'' then ''delete''
         else if startsWith lowerQuery ''create'' then ''create''
         else if startsWith lowerQuery ''alter'' then ''alter''
         else if startsWith lowerQuery ''drop'' then ''drop''
         else if startsWith lowerQuery ''truncate'' then ''truncate''
         else ''other'')"

text \<open>
  The classification in the words of the specification: the statement is trimmed, then
  lowercased, and the result begins with one of the seven prefixes.
\<close>

definition mutating_prefixes :: "string list" where
  "mutating_prefixes =
     [''insert'', ''update'', ''delete'', ''create'', ''alter'', ''drop'', ''truncate'']"

definition spec_mutating :: "string \<Rightarrow> bool" where
  "spec_mutating q = list_ex (\<lambda>kw. prefix kw (toLowerCase (trim q))) mutating_prefixes"

subsection \<open>The regular expression of \<^verbatim>\<open>getAffectedTable\<close>\<close>

text \<open>
  \<^verbatim>\<open>
  function getAffectedTable(query: string): string | null {
    const lowerQuery = query.toLowerCase();
    const tableMatch = lowerQuery.match(
      /from\s+([^\s,;)]+)|into\s+([^\s,;)]+)|update\s+([^\s,;)]+)/i);
    return tableMatch ? (tableMatch[1] || tableMatch[2] || tableMatch[3]) : null;
  }\<close>

  The expression has three alternatives of one shape, a keyword, \<open>\s+\<close> and a capture
  group \<open>([^\s,;)]+)\<close>. The two classes are disjoint and both repetitions are greedy, so
  an alternative matches at a position exactly when the keyword is there, followed by a
  non-empty run of white space and a non-empty run of characters of the group's class; the
  group captures the longest such run. \<open>String.prototype.match\<close> without the \<open>g\<close> flag
  returns the match at the leftmost position where one of the alternatives matches, and
  tries the alternatives in the order written. Under the \<open>i\<close> flag a character of the
  text matches a letter of the keyword when both have the same upper-case form.
\<close>

definition toUpperChar :: "char \<Rightarrow> char" where
  "toUpperChar c =
     (let n = (of_char c :: nat)
      in if (97 \<le> n \<and> n \<le> 122) \<or> (224 \<le> n \<and> n \<le> 254 \<and> n \<noteq> 247)
         then char_of (n - 32) else c)"

definition matchKeyword :: "string \<Rightarrow> string \<Rightarrow> bool" where
  "matchKeyword kw s =
     (length kw \<le> length s \<and> map toUpperChar (take (length kw) s) = map toUpperChar kw)"

definition isTableChar :: "char \<Rightarrow> bool" where
  "isTableChar c = (\<not> isWhiteSpace c \<and> c \<noteq> CHR '','' \<and> c \<noteq> CHR '';'' \<and> c \<noteq> CHR '')'')"

definition matchAlternative :: "string \<Rightarrow> string \<Rightarrow> string option" where
  "matchAlternative kw s =
     (if matchKeyword kw s then
        (let rest = drop (length kw) s;
             spaces = takeWhile isWhiteSpace rest;
             name = takeWhile isTableChar (dropWhile isWhiteSpace rest)
         in if spaces \<noteq> [] \<and> name \<noteq> [] then Some name else None)
      else None)"

text \<open>The three capture groups of a match; a group that did not take part is \<open>None\<close>.\<close>

type_synonym groups = "string option \<times> string option \<times> string option"

definition matchAt :: "string \<Rightarrow> groups option" where
  "matchAt s =
     (case matchAlternative ''from'' s of
        Some g \<Rightarrow> Some (Some g, None, None)
      | None \<Rightarrow>
          (case matchAlternative ''into'' s of
             Some g \<Rightarrow> Some (None, Some g, None)
           | None \<Rightarrow>
               (case matchAlternative ''update'' s of
                  Some g \<Rightarrow> Some (None, None, Some g)
                | None \<Rightarrow> None)))"

fun regexMatch :: "string \<Rightarrow> groups option" where
  "regexMatch [] = matchAt []"
| "regexMatch (c # cs) =
     (case matchAt (c # cs) of Some m \<Rightarrow> Some m | None \<Rightarrow> regexMatch cs)"

text \<open>\<open>a || b\<close> on values that are a string or undefined: the empty string is falsy.\<close>

definition orElse :: "string option \<Rightarrow> string option \<Rightarrow> string option" where
  "orElse a b = (case a of Some x \<Rightarrow> (if x \<noteq> [] then Some x else b) | None \<Rightarrow> b)"

definition getAffectedTable :: "string \<Rightarrow> string option" where
  "getAffectedTable query =
     (let lowerQuery = toLowerCase query
      in case regexMatch lowerQuery of
           Some (g1, g2, g3) \<Rightarrow> orElse (orElse g1 g2) g3
         | None \<Rightarrow> None)"

text \<open>
  The heuristic in the words of the specification: the token that follows the first
  keyword in the statement text, that is, in the text as the caller wrote it.
\<close>

definition spec_affectedTable :: "string \<Rightarrow> string option" where
  "spec_affectedTable query =
     (case regexMatch query of
        Some (g1, g2, g3) \<Rightarrow> orElse (orElse g1 g2) g3
      | None \<Rightarrow> None)"

text \<open>
  The positions of a text at which one of the three patterns matches, and the token the
  pattern captures at a position.
\<close>

definition tokenAt :: "string \<Rightarrow> nat \<Rightarrow> string option" where
  "tokenAt s i =
     (case matchAt (drop i s) of
        Some (g1, g2, g3) \<Rightarrow> orElse (orElse g1 g2) g3
      | None \<Rightarrow> None)"

section \<open>Errors, console and the browser objects the module writes to\<close>

text \<open>
  A thrown value or a rejection reason is an \<open>Error\<close> with its message. What
  \<^verbatim>\<open>console.log\<close>, \<^verbatim>\<open>console.warn\<close> and \<^verbatim>\<open>console.error\<close> print is kept as a
  list of entries, oldest first.
\<close>

datatype error = Error (message: string)

datatype console_entry =
    ConsoleLog string
  | ConsoleWarn string error
  | ConsoleError string error

text \<open>The \<^verbatim>\<open>changeInfo\<close> object built by \<^verbatim>\<open>broadcastDatabaseChange\<close>.\<close>

record changeInfo =
  ci_type :: string
  ci_action :: string
  ci_query :: string
  ci_affectedTable :: "string option"
  ci_timestamp :: nat
  ci_origin :: string
  ci_tabId :: string

text \<open>
  A value kept in \<^verbatim>\<open>localStorage\<close>: a plain text, or the JSON text of a change
  notification (kept as the object that \<^verbatim>\<open>JSON.stringify\<close> was given).
\<close>

datatype stored = StoredText string | StoredJson changeInfo

text \<open>
  The part of the tab that \<^verbatim>\<open>broadcastDatabaseChange\<close> reads and writes: the module
  variable \<^verbatim>\<open>dbChannel\<close> (\<open>None\<close> is \<^verbatim>\<open>null\<close>, otherwise the open channel's
  name), the messages posted on the channel, \<^verbatim>\<open>localStorage\<close>, the custom events
  dispatched on \<^verbatim>\<open>window\<close>, and the console.
\<close>

record browser =
  dbChannel :: "string option"
  channelPosts :: "changeInfo list"
  localStorage :: "string \<rightharpoonup> stored"
  windowEvents :: "(string \<times> changeInfo) list"
  console :: "console_entry list"

text \<open>
  What the platform answers during one call: the two readings of \<^verbatim>\<open>Date.now()\<close>,
  \<^verbatim>\<open>window.location.href\<close>, the identifier made by \<^verbatim>\<open>generateTabId()\<close>, and, for
  each of the three platform calls that can throw, the exception it throws, if any
  (\<^verbatim>\<open>postMessage\<close> throws on a closed channel or a message that cannot be cloned,
  \<^verbatim>\<open>setItem\<close> when the quota is exceeded or storage is denied).
\<close>

record platform =
  dateNow :: nat
  dateNowStored :: nat
  locationHref :: string
  generatedTabId :: string
  postMessageThrows :: "error option"
  setItemThrows :: "error option"
  dispatchEventThrows :: "error option"

definition postMessage :: "platform \<Rightarrow> changeInfo \<Rightarrow> browser \<Rightarrow> (error + unit) \<times> browser" where
  "postMessage env msg b =
     (case postMessageThrows env of
        Some e \<Rightarrow> (Inl e, b)
      | None \<Rightarrow> (Inr (), b\<lparr>channelPosts := channelPosts b @ [msg]\<rparr>))"

definition setItem :: "platform \<Rightarrow> string \<Rightarrow> stored \<Rightarrow> browser \<Rightarrow> (error + unit) \<times> browser" where
  "setItem env key v b =
     (case setItemThrows env of
        Some e \<Rightarrow> (Inl e, b)
      | None \<Rightarrow> (Inr (), b\<lparr>localStorage := (localStorage b)(key \<mapsto> v)\<rparr>))"

definition dispatchEvent :: "platform \<Rightarrow> string \<Rightarrow> changeInfo \<Rightarrow> browser \<Rightarrow> (error + unit) \<times> browser" where
  "dispatchEvent env name detail b =
     (case dispatchEventThrows env of
        Some e \<Rightarrow> (Inl e, b)
      | None \<Rightarrow> (Inr (), b\<lparr>windowEvents := windowEvents b @ [(name, detail)]\<rparr>))"

subsection \<open>\<^verbatim>\<open>broadcastDatabaseChange\<close>\<close>

text \<open>
  \<^verbatim>\<open>
  function broadcastDatabaseChange(query: string, affectedTable?: string): void {
    const changeInfo = { type: "data_updated", action: getQueryAction(query), query,
      affectedTable: affectedTable || getAffectedTable(query), timestamp: Date.now(),
      origin: window.location.href, tabId: generateTabId() };
    try {
      if (dbChannel) {
        console.log("Broadcasting update via channel:", changeInfo);
        dbChannel.postMessage(changeInfo);
      }
      const notificationKey = `db_change_notification`;
      localStorage.setItem(notificationKey, JSON.stringify({
        ...changeInfo, timestamp: Date.now() }));
      window.dispatchEvent(new CustomEvent('database-changed', { detail: changeInfo }));
    } catch (error) {
      console.error("Error broadcasting change:", error);
    }
  }\<close>

  The three deliveries are statements of one \<^verbatim>\<open>try\<close> block: an exception leaves the
  block at the statement that throws, with the writes made so far kept.
\<close>

definition makeChangeInfo :: "platform \<Rightarrow> string \<Rightarrow> string option \<Rightarrow> changeInfo" where
  "makeChangeInfo env query affectedTable =
     \<lparr> ci_type = ''data_updated'',
       ci_action = getQueryAction query,
       ci_query = query,
       ci_affectedTable = orElse affectedTable (getAffectedTable query),
       ci_timestamp = dateNow env,
       ci_origin = locationHref env,
       ci_tabId = generatedTabId env \<rparr>"

definition broadcastTry :: "platform \<Rightarrow> changeInfo \<Rightarrow> browser \<Rightarrow> (error + unit) \<times> browser" where
  "broadcastTry env info b =
     (let (r1, b1) =
            (case dbChannel b of
               Some ch \<Rightarrow>
                 postMessage env info
                   (b\<lparr>console := console b @ [ConsoleLog ''Broadcasting update via channel:'']\<rparr>)
             | None \<Rightarrow> (Inr (), b))
      in case r1 of
           Inl e \<Rightarrow> (Inl e, b1)
         | Inr _ \<Rightarrow>
             (let (r2, b2) =
                    setItem env ''db_change_notification''
                      (StoredJson (info\<lparr>ci_timestamp := dateNowStored env\<rparr>)) b1
              in case r2 of
                   Inl e \<Rightarrow> (Inl e, b2)
                 | Inr _ \<Rightarrow> dispatchEvent env ''database-changed'' info b2))"

definition broadcastDatabaseChange ::
  "platform \<Rightarrow> string \<Rightarrow> string option \<Rightarrow> browser \<Rightarrow> (error + unit) \<times> browser" where
  "broadcastDatabaseChange env query affectedTable b =
     (let changeInfo = makeChangeInfo env query affectedTable;
          (r, b') = broadcastTry env changeInfo b
      in case r of
           Inl e \<Rightarrow> (Inr (), b'\<lparr>console := console b' @ [ConsoleError ''Error broadcasting change:'' e]\<rparr>)
         | Inr _ \<Rightarrow> (Inr (), b'))"

text \<open>
  The fan-out in the words of the specification: each of the three deliveries is made on
  its own, and one that throws is logged and stops no other.
\<close>

definition deliverIndependently ::
  "(browser \<Rightarrow> (error + unit) \<times> browser) \<Rightarrow> browser \<Rightarrow> browser" where
  "deliverIndependently deliver b =
     (case deliver b of
        (Inl e, b') \<Rightarrow> b'\<lparr>console := console b' @ [ConsoleError ''Error broadcasting change:'' e]\<rparr>
      | (Inr _, b') \<Rightarrow> b')"

definition spec_broadcast :: "platform \<Rightarrow> string \<Rightarrow> string option \<Rightarrow> browser \<Rightarrow> browser" where
  "spec_broadcast env query affectedTable b =
     (let info = makeChangeInfo env query affectedTable;
          b1 = (case dbChannel b of
                  Some ch \<Rightarrow> deliverIndependently (postMessage env info) b
                | None \<Rightarrow> b);
          b2 = deliverIndependently
                 (setItem env ''db_change_notification''
                    (StoredJson (info\<lparr>ci_timestamp := dateNowStored env\<rparr>))) b1
      in deliverIndependently (dispatchEvent env ''database-changed'' info) b2)"

text \<open>A tab with nothing posted, stored, dispatched or printed yet.\<close>

definition freshBrowser :: "string option \<Rightarrow> browser" where
  "freshBrowser ch =
     \<lparr> dbChannel = ch, channelPosts = [], localStorage = Map.empty,
       windowEvents = [], console = [] \<rparr>"

definition samplePlatform :: "error option \<Rightarrow> error option \<Rightarrow> error option \<Rightarrow> platform" where
  "samplePlatform post store dispatch =
     \<lparr> dateNow = 1000, dateNowStored = 1001, locationHref = ''http://localhost/'',
       generatedTabId = ''tab_1000_abc'', postMessageThrows = post,
       setItemThrows = store, dispatchEventThrows = dispatch \<rparr>"

section \<open>Promises and query results\<close>

text \<open>
  The state of a promise. When a promise is awaited, \<open>Pending\<close> stands for one that never
  settles: the awaiting function never resumes.
\<close>

datatype 'a promise = Pending | Fulfilled 'a | Rejected error

text \<open>The result object of \<^verbatim>\<open>db.query\<close>; \<open>rows\<close> may be absent.\<close>

record queryResult =
  rows :: "string list list option"

subsection \<open>\<^verbatim>\<open>initializePatientTable\<close>\<close>

text \<open>
  \<^verbatim>\<open>
  export async function initializePatientTable() {
    try {
      console.log("Creating patients table if not exists...");
      await executeQuery(`CREATE TABLE IF NOT EXISTS patients (...)`);
      const tableCheck = await executeQuery(`SELECT column_name FROM ...`);
      console.log("Patients table verified with columns:", tableCheck.rows?.length || 0);
      await executeQuery(`CREATE INDEX IF NOT EXISTS idx_patients_created_at ...`);
      return true;
    } catch (error) {
      console.error("Error initializing patients table:", error);
      return false;
    }
  }\<close>

  The three statements are the template literals of the source, line breaks and
  indentation included.
\<close>

definition createPatientsTableSql :: string where
  "createPatientsTableSql =
     ''\<newline>      CREATE TABLE IF NOT EXISTS patients (\<newline>        id SERIAL PRIMARY KEY,\<newline>        full_name TEXT NOT NULL,\<newline>        age INTEGER NOT NULL,\<newline>        gender TEXT NOT NULL,\<newline>        contact_info TEXT,\<newline>        address TEXT,\<newline>        email TEXT,\<newline>        blood_type TEXT,\<newline>        allergies TEXT,\<newline>        medical_history TEXT,\<newline>        insurance_provider TEXT,\<newline>        insurance_id TEXT,\<newline>        emergency_contact TEXT,\<newline>        created_at TIMESTAMP DEFAULT CURRENT_TIMESTAMP\<newline>      )\<newline>    ''"

definition verifyPatientsTableSql :: string where
  "verifyPatientsTableSql =
     ''\<newline>      SELECT column_name FROM information_schema.columns \<newline>      WHERE table_name = ''
     @ [CHR 0x27] @ ''patients'' @ [CHR 0x27] @ ''\<newline>    ''"

definition createPatientsIndexSql :: string where
  "createPatientsIndexSql =
     ''\<newline>      CREATE INDEX IF NOT EXISTS idx_patients_created_at ON patients(created_at DESC)\<newline>    ''"

definition patientTableStatements :: "string list" where
  "patientTableStatements =
     [createPatientsTableSql, verifyPatientsTableSql, createPatientsIndexSql]"

text \<open>
  \<^verbatim>\<open>await executeQuery(q)\<close> as the function sees it: in a state of the tab, the call
  answers with the promise's final state and leaves a new state of the tab.
\<close>

type_synonym 'w query_runner = "string \<Rightarrow> 'w \<Rightarrow> queryResult promise \<times> 'w"

text \<open>
  The \<^verbatim>\<open>try\<close> block. The result is what the block does: \<open>Fulfilled True\<close> when it
  reaches \<^verbatim>\<open>return true\<close>, \<open>Rejected e\<close> when an awaited call throws \<open>e\<close>, and
  \<open>Pending\<close> when an awaited promise never settles.
\<close>

definition initializePatientTableTry ::
  "'w query_runner \<Rightarrow> 'w \<Rightarrow> console_entry list \<Rightarrow> bool promise \<times> 'w \<times> console_entry list" where
  "initializePatientTableTry exec w out =
     (let out1 = out @ [ConsoleLog ''Creating patients table if not exists...'']
      in case exec createPatientsTableSql w of
           (Pending, w1) \<Rightarrow> (Pending, w1, out1)
         | (Rejected e, w1) \<Rightarrow> (Rejected e, w1, out1)
         | (Fulfilled created, w1) \<Rightarrow>
             (case exec verifyPatientsTableSql w1 of
                (Pending, w2) \<Rightarrow> (Pending, w2, out1)
              | (Rejected e, w2) \<Rightarrow> (Rejected e, w2, out1)
              | (Fulfilled tableCheck, w2) \<Rightarrow>
                  (let out2 = out1 @ [ConsoleLog ''Patients table verified with columns:'']
                   in case exec createPatientsIndexSql w2 of
                        (Pending, w3) \<Rightarrow> (Pending, w3, out2)
                      | (Rejected e, w3) \<Rightarrow> (Rejected e, w3, out2)
                      | (Fulfilled indexed, w3) \<Rightarrow> (Fulfilled True, w3, out2))))"

definition initializePatientTable ::
  "'w query_runner \<Rightarrow> 'w \<Rightarrow> console_entry list \<Rightarrow> bool promise \<times> 'w \<times> console_entry list" where
  "initializePatientTable exec w out =
     (case initializePatientTableTry exec w out of
        (Rejected e, w', out') \<Rightarrow>
          (Fulfilled False, w', out' @ [ConsoleError ''Error initializing patients table:'' e])
      | (Pending, w', out') \<Rightarrow> (Pending, w', out')
      | (Fulfilled b, w', out') \<Rightarrow> (Fulfilled b, w', out'))"

text \<open>
  The answers the statements of a list get when they are run one after the other, up to
  and including the first that is not fulfilled.
\<close>

fun answers :: "'w query_runner \<Rightarrow> 'w \<Rightarrow> string list \<Rightarrow> queryResult promise list" where
  "answers exec w [] = []"
| "answers exec w (q # qs) =
     (case exec q w of
        (Fulfilled r, w') \<Rightarrow> Fulfilled r # answers exec w' qs
      | (Rejected e, w') \<Rightarrow> [Rejected e]
      | (Pending, w') \<Rightarrow> [Pending])"

definition isFulfilled :: "'a promise \<Rightarrow> bool" where
  "isFulfilled p = (case p of Fulfilled x \<Rightarrow> True | Rejected e \<Rightarrow> False | Pending \<Rightarrow> False)"

text \<open>The cause that ends a run of statements, if one was rejected.\<close>

definition rejection :: "'a promise list \<Rightarrow> error option" where
  "rejection ps =
     (case ps of
        [] \<Rightarrow> None
      | p # ps' \<Rightarrow> (case last ps of Rejected e \<Rightarrow> Some e | Fulfilled x \<Rightarrow> None | Pending \<Rightarrow> None))"

definition neverSettles :: "'a promise list \<Rightarrow> bool" where
  "neverSettles ps =
     (case ps of
        [] \<Rightarrow> False
      | p # ps' \<Rightarrow> (case last ps of Pending \<Rightarrow> True | Fulfilled x \<Rightarrow> False | Rejected e \<Rightarrow> False))"

text \<open>A runner for examples: it rejects the statements of a list and fulfils all others.\<close>

definition rejecting :: "string list \<Rightarrow> unit query_runner" where
  "rejecting bad q w =
     (if q \<in> set bad then (Rejected (Error ''relation does not exist''), w)
      else (Fulfilled \<lparr>rows = Some []\<rparr>, w))"

section \<open>The transaction queue: \<^verbatim>\<open>executeQuery\<close> and \<^verbatim>\<open>processPendingTransactions\<close>\<close>

text \<open>
  The tab runs one cooperative event loop: code runs from one suspension point
  (\<^verbatim>\<open>await\<close>) to the next without interruption. The model has a state of the tab and
  one step for each way the event loop resumes the module's code: a call of
  \<^verbatim>\<open>executeQuery\<close>, the answer of the connection to an awaited \<^verbatim>\<open>db.query\<close>, a
  \<^verbatim>\<open>setTimeout\<close> callback, and the resumption of \<^verbatim>\<open>processPendingTransactions\<close>
  after \<^verbatim>\<open>await transaction()\<close>, and the last lines of \<^verbatim>\<open>cleanupDatabase\<close>, which
  empty the queue. Which of the enabled steps comes next is not fixed.
\<close>

text \<open>
  \<^verbatim>\<open>retries?: number\<close>: a JavaScript number is a finite value (here a rational, which
  every finite double is), \<^verbatim>\<open>NaN\<close>, \<^verbatim>\<open>Infinity\<close> or \<^verbatim>\<open>-Infinity\<close>. The code
  compares it with the loop counter, a whole number counted up from 1:
  \<open>leNumber attempt retries\<close> is \<^verbatim>\<open>attempt <= retries\<close> and \<open>ltNumber attempt retries\<close>
  is \<^verbatim>\<open>attempt < retries\<close>; every comparison with \<^verbatim>\<open>NaN\<close> is false. The counter is
  a natural number here; in the code it is a double, which counts exactly up to
  \<^verbatim>\<open>2 ** 53\<close>.
\<close>

datatype number = Finite rat | NaN | PositiveInfinity | NegativeInfinity

fun leNumber :: "nat \<Rightarrow> number \<Rightarrow> bool" where
  "leNumber attempt (Finite r) = (of_nat attempt \<le> r)"
| "leNumber attempt NaN = False"
| "leNumber attempt PositiveInfinity = True"
| "leNumber attempt NegativeInfinity = False"

fun ltNumber :: "nat \<Rightarrow> number \<Rightarrow> bool" where
  "ltNumber attempt (Finite r) = (of_nat attempt < r)"
| "ltNumber attempt NaN = False"
| "ltNumber attempt PositiveInfinity = True"
| "ltNumber attempt NegativeInfinity = False"

text \<open>
  The arguments of a call: the statement, \<^verbatim>\<open>config?.retries\<close> (absent: \<open>None\<close>),
  \<^verbatim>\<open>config?.skipQueue\<close> (absent counts as false) and \<^verbatim>\<open>config?.broadcastTable\<close>.
  \<^verbatim>\<open>params\<close> are handed to \<^verbatim>\<open>db.query\<close> unchanged and are not modelled.
\<close>

record call =
  c_query :: string
  c_retries :: "number option"
  c_skipQueue :: bool
  c_broadcastTable :: "string option"

text \<open>
  The outcome of the guard at the head of \<^verbatim>\<open>executeQuery\<close>
  (\<^verbatim>\<open>if (!isInitialized) { try { await dbPromise } catch ... }\<close>): it is passed when
  \<^verbatim>\<open>isInitialized\<close> holds or \<^verbatim>\<open>dbPromise\<close> is fulfilled, and fails with the
  reason of \<^verbatim>\<open>dbPromise\<close> when that promise is rejected.
\<close>

datatype guard = GuardPassed | GuardFailed error

text \<open>
  A call that passed the guard: the number of the call, which identifies the promise it
  returned, with \<^verbatim>\<open>query\<close>, \<^verbatim>\<open>retries\<close> and \<^verbatim>\<open>config?.broadcastTable\<close> as the
  closure pushed on \<^verbatim>\<open>pendingTransactions\<close> captures them.
\<close>

record operation =
  op_id :: nat
  op_query :: string
  op_retries :: number
  op_broadcastTable :: "string option"

text \<open>
  Where a retry loop is suspended: inside the \<^verbatim>\<open>try\<close> block of an attempt, at the
  back-off \<^verbatim>\<open>await new Promise(resolve => setTimeout(resolve, ...))\<close> after an attempt,
  or not at all because the loop has been left. The \<^verbatim>\<open>try\<close> block suspends twice, at
  \<^verbatim>\<open>await dbPromise\<close> and at \<^verbatim>\<open>await db.query(...)\<close>. A call gets past the guard
  of \<^verbatim>\<open>executeQuery\<close> only when \<^verbatim>\<open>dbPromise\<close> is fulfilled, so the first
  \<^verbatim>\<open>await\<close> resumes with the connection as a microtask of the same turn, before any
  timer or answer is handled; the two are one phase here, \<open>AwaitQuery\<close>, which begins
  when the \<^verbatim>\<open>try\<close> block is entered and ends with the answer of the connection.
\<close>

datatype phase = AwaitQuery nat | Backoff nat | Returned

record task =
  t_op :: operation
  t_phase :: phase
  t_lastError :: "error option"

datatype timer = ProcessQueue | ResumeQueued nat nat | ResumeFast nat nat

text \<open>
  What happened so far, oldest first: a closure was pushed on the queue, a closure was
  taken from the queue and called, \<^verbatim>\<open>processPendingTransactions\<close> reached its
  \<^verbatim>\<open>finally\<close> block for a closure, \<^verbatim>\<open>cleanupDatabase\<close> threw away the closures
  that were waiting in the queue, the retry loop of a call entered the \<^verbatim>\<open>try\<close> block
  of an attempt (on the queued path or on the fast path; the call of \<^verbatim>\<open>db.query\<close>
  follows in the same turn, after \<^verbatim>\<open>await dbPromise\<close>), a back-off of so many
  milliseconds was started for a call (the argument of \<^verbatim>\<open>setTimeout\<close>).
\<close>

datatype history_event =
    Enqueued operation
  | Started operation
  | Released operation
  | Discarded "operation list"
  | Issued nat nat
  | FastIssued nat nat
  | Waited nat nat

text \<open>
  The state of the tab. \<open>isTransactionInProgress\<close> and \<open>pendingTransactions\<close> are the
  module variables. \<open>transactions\<close> holds the closures that were taken from the queue and
  called and whose caller, \<^verbatim>\<open>processPendingTransactions\<close>, has not yet resumed after
  \<^verbatim>\<open>await transaction()\<close>; \<open>fastCalls\<close> holds the calls inside the fast path's loop;
  \<open>timers\<close> the \<^verbatim>\<open>setTimeout\<close> callbacks not yet run; \<open>results\<close> the state of the
  promise each call returned.
\<close>

record tab =
  isTransactionInProgress :: bool
  pendingTransactions :: "operation list"
  transactions :: "task list"
  fastCalls :: "task list"
  timers :: "timer list"
  results :: "nat \<Rightarrow> queryResult promise"
  nextCall :: nat
  history :: "history_event list"
  page :: browser

definition initialTab :: tab where
  "initialTab =
     \<lparr> isTransactionInProgress = False, pendingTransactions = [], transactions = [],
       fastCalls = [], timers = [], results = (\<lambda>i. Pending), nextCall = 0,
       history = [], page = freshBrowser None \<rparr>"

text \<open>\<^verbatim>\<open>resolve\<close> and \<^verbatim>\<open>reject\<close>: a promise settles once, later calls change nothing.\<close>

definition settle :: "nat \<Rightarrow> queryResult promise \<Rightarrow> tab \<Rightarrow> tab" where
  "settle i v s = (if results s i = Pending then s\<lparr>results := (results s)(i := v)\<rparr> else s)"

definition remember :: "history_event \<Rightarrow> tab \<Rightarrow> tab" where
  "remember e s = s\<lparr>history := history s @ [e]\<rparr>"

definition warn :: "error \<Rightarrow> tab \<Rightarrow> tab" where
  "warn e s =
     s\<lparr>page := (page s)\<lparr>console := console (page s) @ [ConsoleWarn ''Query attempt failed:'' e]\<rparr>\<rparr>"

definition backoffDelay :: "nat \<Rightarrow> nat" where
  "backoffDelay attempt = 100 * 2 ^ (attempt - 1)"

definition taskOf :: "nat \<Rightarrow> task list \<Rightarrow> task option" where
  "taskOf i ts = find (\<lambda>t. op_id (t_op t) = i) ts"

definition replaceTask :: "nat \<Rightarrow> task \<Rightarrow> task list \<Rightarrow> task list" where
  "replaceTask i t' ts = map (\<lambda>t. if op_id (t_op t) = i then t' else t) ts"

definition removeTask :: "nat \<Rightarrow> task list \<Rightarrow> task list" where
  "removeTask i ts = filter (\<lambda>t. op_id (t_op t) \<noteq> i) ts"

subsection \<open>The queued path\<close>

text \<open>
  \<^verbatim>\<open>
  pendingTransactions.push(async () => {
    for (let attempt = 1; attempt <= retries; attempt++) {
      try {
        const db = await dbPromise;
        const result = await db.query(query, params);
        if (isModifyingQuery(query)) {
          broadcastDatabaseChange(query, config?.broadcastTable);
        }
        resolve(result as T);
        return;
      } catch (error) {
        console.warn(`Query attempt ${attempt}/${retries} failed:`, error);
        lastError = error;
        if (attempt < retries) {
          await new Promise(resolve => setTimeout(resolve, 100 * Math.pow(2, attempt - 1)));
        } else {
          reject(error);
        }
      }
    }
  });
  processPendingTransactions();\<close>

  \<open>queuedLoop\<close> is the head of the loop for a given value of \<open>attempt\<close>: it either
  starts the attempt and suspends at the query, or leaves the loop, after which the
  closure returns.
\<close>

definition queuedLoop :: "operation \<Rightarrow> nat \<Rightarrow> tab \<Rightarrow> phase \<times> tab" where
  "queuedLoop op attempt s =
     (if leNumber attempt (op_retries op)
      then (AwaitQuery attempt, remember (Issued (op_id op) attempt) s)
      else (Returned, s))"

definition startTransaction :: "operation \<Rightarrow> tab \<Rightarrow> tab" where
  "startTransaction op s =
     (let (ph, s1) = queuedLoop op 1 (remember (Started op) s)
      in s1\<lparr>transactions :=
              transactions s1 @ [\<lparr>t_op = op, t_phase = ph, t_lastError = None\<rparr>]\<rparr>)"

text \<open>
  \<^verbatim>\<open>
  async function processPendingTransactions(): Promise<void> {
    if (pendingTransactions.length === 0 || isTransactionInProgress) { return; }
    isTransactionInProgress = true;
    const transaction = pendingTransactions.shift();
    if (transaction) {
      try { await transaction(); }
      catch (error) { console.error("Transaction processing error:", error); }
      finally {
        isTransactionInProgress = false;
        setTimeout(processPendingTransactions, 0);
      }
    }
  }\<close>

  \<open>processPendingTransactions\<close> is the function up to \<^verbatim>\<open>await transaction()\<close>, the
  called closure running up to its own first suspension; \<open>transactionSettled\<close> is the
  \<^verbatim>\<open>finally\<close> block, which runs once the closure has returned. The closure catches
  every exception of its attempts itself, so the \<^verbatim>\<open>catch\<close> block here is never entered.
\<close>

definition processPendingTransactions :: "tab \<Rightarrow> tab" where
  "processPendingTransactions s =
     (if pendingTransactions s = [] \<or> isTransactionInProgress s then s
      else (case pendingTransactions s of
              [] \<Rightarrow> s
            | transaction # rest \<Rightarrow>
                startTransaction transaction
                  (s\<lparr>isTransactionInProgress := True, pendingTransactions := rest\<rparr>)))"

definition transactionSettled :: "nat \<Rightarrow> tab \<Rightarrow> tab option" where
  "transactionSettled i s =
     (case taskOf i (transactions s) of
        None \<Rightarrow> None
      | Some t \<Rightarrow>
          (case t_phase t of
             Returned \<Rightarrow>
               Some ((remember (Released (t_op t)) s)
                       \<lparr>isTransactionInProgress := False,
                        timers := timers s @ [ProcessQueue],
                        transactions := removeTask i (transactions s)\<rparr>)
           | AwaitQuery a \<Rightarrow> None
           | Backoff a \<Rightarrow> None))"

text \<open>The closure resumes with the answer of \<^verbatim>\<open>db.query\<close> for the attempt it awaits.\<close>

definition queuedAnswered :: "task \<Rightarrow> nat \<Rightarrow> error + queryResult \<Rightarrow> platform \<Rightarrow> tab \<Rightarrow> tab" where
  "queuedAnswered t attempt answer env s =
     (let op = t_op t; i = op_id op
      in case answer of
           Inr result \<Rightarrow>
             (let s1 = (if isModifyingQuery (op_query op)
                        then s\<lparr>page := snd (broadcastDatabaseChange env (op_query op)
                                              (op_broadcastTable op) (page s))\<rparr>
                        else s);
                  s2 = settle i (Fulfilled result) s1
              in s2\<lparr>transactions := replaceTask i (t\<lparr>t_phase := Returned\<rparr>) (transactions s2)\<rparr>)
         | Inl e \<Rightarrow>
             (let s1 = warn e s
              in if ltNumber attempt (op_retries op)
                 then (remember (Waited i (backoffDelay attempt)) s1)
                        \<lparr>timers := timers s1 @ [ResumeQueued i (backoffDelay attempt)],
                         transactions :=
                           replaceTask i (t\<lparr>t_phase := Backoff attempt, t_lastError := Some e\<rparr>)
                             (transactions s1)\<rparr>
                 else (let s2 = settle i (Rejected e) s1;
                           (ph, s3) = queuedLoop op (Suc attempt) s2
                       in s3\<lparr>transactions :=
                               replaceTask i (t\<lparr>t_phase := ph, t_lastError := Some e\<rparr>)
                                 (transactions s3)\<rparr>)))"

text \<open>The back-off timer of a queued closure fires: the loop goes on with the next attempt.\<close>

definition queuedResumed :: "nat \<Rightarrow> tab \<Rightarrow> tab option" where
  "queuedResumed i s =
     (case taskOf i (transactions s) of
        None \<Rightarrow> None
      | Some t \<Rightarrow>
          (case t_phase t of
             Backoff a \<Rightarrow>
               (let (ph, s1) = queuedLoop (t_op t) (Suc a) s
                in Some (s1\<lparr>transactions := replaceTask i (t\<lparr>t_phase := ph\<rparr>) (transactions s1)\<rparr>))
           | AwaitQuery a \<Rightarrow> None
           | Returned \<Rightarrow> None))"

subsection \<open>The fast path\<close>

text \<open>
  \<^verbatim>\<open>
  if (config?.skipQueue && !isModifyingQuery(query)) {
    for (let attempt = 1; attempt <= retries; attempt++) {
      try {
        const db = await dbPromise;
        return await db.query(query, params) as T;
      } catch (error) {
        console.warn(`Query attempt ${attempt}/${retries} failed:`, error);
        lastError = error;
        if (attempt < retries) {
          await new Promise(resolve => setTimeout(resolve, 100 * Math.pow(2, attempt - 1)));
        }
      }
    }
    throw lastError || new Error("Query failed after retries");
  }\<close>

  \<open>fastLoop\<close> is the head of this loop; when the loop is left, the \<^verbatim>\<open>throw\<close> after
  it rejects the promise of the call.
\<close>

definition fastLoop :: "operation \<Rightarrow> nat \<Rightarrow> error option \<Rightarrow> tab \<Rightarrow> tab" where
  "fastLoop op attempt lastError s =
     (let i = op_id op
      in if leNumber attempt (op_retries op)
         then (remember (FastIssued i attempt) s)
                \<lparr>fastCalls := removeTask i (fastCalls s)
                     @ [\<lparr>t_op = op, t_phase = AwaitQuery attempt, t_lastError = lastError\<rparr>]\<rparr>
         else settle i
                (Rejected (case lastError of
                             Some e \<Rightarrow> e
                           | None \<Rightarrow> Error ''Query failed after retries''))
                (s\<lparr>fastCalls := removeTask i (fastCalls s)\<rparr>))"

definition fastAnswered :: "task \<Rightarrow> nat \<Rightarrow> error + queryResult \<Rightarrow> tab \<Rightarrow> tab" where
  "fastAnswered t attempt answer s =
     (let op = t_op t; i = op_id op
      in case answer of
           Inr result \<Rightarrow> settle i (Fulfilled result) (s\<lparr>fastCalls := removeTask i (fastCalls s)\<rparr>)
         | Inl e \<Rightarrow>
             (let s1 = warn e s
              in if ltNumber attempt (op_retries op)
                 then (remember (Waited i (backoffDelay attempt)) s1)
                        \<lparr>timers := timers s1 @ [ResumeFast i (backoffDelay attempt)],
                         fastCalls :=
                           replaceTask i (t\<lparr>t_phase := Backoff attempt, t_lastError := Some e\<rparr>)
                             (fastCalls s1)\<rparr>
                 else fastLoop op (Suc attempt) (Some e) s1))"

definition fastResumed :: "nat \<Rightarrow> tab \<Rightarrow> tab option" where
  "fastResumed i s =
     (case taskOf i (fastCalls s) of
        None \<Rightarrow> None
      | Some t \<Rightarrow>
          (case t_phase t of
             Backoff a \<Rightarrow> Some (fastLoop (t_op t) (Suc a) (t_lastError t) s)
           | AwaitQuery a \<Rightarrow> None
           | Returned \<Rightarrow> None))"

subsection \<open>\<^verbatim>\<open>executeQuery\<close>\<close>

text \<open>
  \<^verbatim>\<open>
  const retries = config?.retries ?? 3;
  if (!isInitialized) {
    try { await dbPromise; }
    catch (error) { throw new Error(`Failed to initialize database: ${error.message}`); }
  }
  if (config?.skipQueue && !isModifyingQuery(query)) { ... fast path ... }
  return new Promise((resolve, reject) => {
    pendingTransactions.push(async () => { ... });
    processPendingTransactions();
  });\<close>
\<close>

definition operationOf :: "nat \<Rightarrow> call \<Rightarrow> operation" where
  "operationOf i c =
     \<lparr> op_id = i, op_query = c_query c,
       op_retries = (case c_retries c of Some r \<Rightarrow> r | None \<Rightarrow> Finite 3),
       op_broadcastTable = c_broadcastTable c \<rparr>"

definition executeQuery :: "call \<Rightarrow> guard \<Rightarrow> tab \<Rightarrow> tab" where
  "executeQuery c g s =
     (let i = nextCall s;
          s0 = s\<lparr>nextCall := Suc i\<rparr>;
          op = operationOf i c
      in case g of
           GuardFailed e \<Rightarrow>
             settle i (Rejected (Error (''Failed to initialize database: '' @ message e))) s0
         | GuardPassed \<Rightarrow>
             (if c_skipQueue c \<and> \<not> isModifyingQuery (c_query c)
              then fastLoop op 1 None s0
              else processPendingTransactions
                     (remember (Enqueued op)
                        (s0\<lparr>pendingTransactions := pendingTransactions s0 @ [op]\<rparr>))))"

subsection \<open>\<^verbatim>\<open>cleanupDatabase\<close> and the queue\<close>

text \<open>
  \<^verbatim>\<open>
  export async function cleanupDatabase(): Promise<void> {
    clearInterval(connectionCheckInterval);
    window.removeEventListener('storage', handleStorageEvent);
    if (dbInstance) { try { await dbInstance.close(); } catch (err) { ... } dbInstance = null; }
    if (dbChannel) { try { dbChannel.close(); } catch (err) { ... } dbChannel = null; }
    isInitialized = false;
    pendingTransactions = [];
    console.log("Database resources cleaned up");
  }\<close>

  The function is exported, and the module calls it itself: from the \<^verbatim>\<open>catch\<close> block of
  \<^verbatim>\<open>initializeDatabase\<close>, and from the health check that a successful
  \<^verbatim>\<open>initializeDatabase\<close> starts,

  \<^verbatim>\<open>
  connectionCheckInterval = setInterval(async () => {
    const isAlive = await checkConnection();
    if (!isAlive) {
      console.warn("Database connection lost, reinitializing...");
      await cleanupDatabase();
      await initializeDatabase(config);
    }
  }, 5000);\<close>

  where \<^verbatim>\<open>checkConnection\<close> is false when \<^verbatim>\<open>dbInstance.query("SELECT 1")\<close> throws.
  Of the state of the queue the function touches \<^verbatim>\<open>pendingTransactions\<close> only, in its
  last lines, which run without suspension: the closures that wait are thrown away, and
  nothing resolves or rejects their promises. It leaves \<^verbatim>\<open>isTransactionInProgress\<close>
  and a closure that is executing alone. What it does to the connection, the channel and
  \<^verbatim>\<open>isInitialized\<close> is in the state of the session, below; after it the guard of
  \<^verbatim>\<open>executeQuery\<close> goes by \<^verbatim>\<open>dbPromise\<close> alone, which stays as it settled.
\<close>

definition cleanupDatabase_queue :: "tab \<Rightarrow> tab" where
  "cleanupDatabase_queue s =
     (remember (Discarded (pendingTransactions s)) s)\<lparr>pendingTransactions := []\<rparr>"

subsection \<open>The event loop\<close>

datatype event =
    Call call guard
  | QueryAnswered nat "error + queryResult" platform
  | TimerFired timer
  | TransactionSettled nat
  | DatabaseCleanedUp

definition queryAnswered :: "nat \<Rightarrow> error + queryResult \<Rightarrow> platform \<Rightarrow> tab \<Rightarrow> tab option" where
  "queryAnswered i answer env s =
     (case taskOf i (transactions s) of
        Some t \<Rightarrow>
          (case t_phase t of
             AwaitQuery a \<Rightarrow> Some (queuedAnswered t a answer env s)
           | Backoff a \<Rightarrow> None
           | Returned \<Rightarrow> None)
      | None \<Rightarrow>
          (case taskOf i (fastCalls s) of
             Some t \<Rightarrow>
               (case t_phase t of
                  AwaitQuery a \<Rightarrow> Some (fastAnswered t a answer s)
                | Backoff a \<Rightarrow> None
                | Returned \<Rightarrow> None)
           | None \<Rightarrow> None))"

definition timerFired :: "timer \<Rightarrow> tab \<Rightarrow> tab option" where
  "timerFired t s =
     (if t \<in> set (timers s)
      then (let s1 = s\<lparr>timers := remove1 t (timers s)\<rparr>
            in case t of
                 ProcessQueue \<Rightarrow> Some (processPendingTransactions s1)
               | ResumeQueued i ms \<Rightarrow> queuedResumed i s1
               | ResumeFast i ms \<Rightarrow> fastResumed i s1)
      else None)"

fun step :: "event \<Rightarrow> tab \<Rightarrow> tab option" where
  "step (Call c g) s = Some (executeQuery c g s)"
| "step (QueryAnswered i answer env) s = queryAnswered i answer env s"
| "step (TimerFired t) s = timerFired t s"
| "step (TransactionSettled i) s = transactionSettled i s"
| "step DatabaseCleanedUp s = Some (cleanupDatabase_queue s)"

fun run :: "event list \<Rightarrow> tab \<Rightarrow> tab option" where
  "run [] s = Some s"
| "run (e # es) s = (case step e s of None \<Rightarrow> None | Some s' \<Rightarrow> run es s')"

definition reachable :: "tab \<Rightarrow> bool" where
  "reachable s = (\<exists>es. run es initialTab = Some s)"

subsection \<open>Reading the history\<close>

fun enqueuedIn :: "history_event \<Rightarrow> operation list" where
  "enqueuedIn (Enqueued op) = [op]"
| "enqueuedIn e = []"

fun startedIn :: "history_event \<Rightarrow> operation list" where
  "startedIn (Started op) = [op]"
| "startedIn e = []"

fun releasedIn :: "history_event \<Rightarrow> operation list" where
  "releasedIn (Released op) = [op]"
| "releasedIn e = []"

fun discardedIn :: "history_event \<Rightarrow> operation list" where
  "discardedIn (Discarded ops) = ops"
| "discardedIn e = []"

definition submittedOps :: "tab \<Rightarrow> operation list" where
  "submittedOps s = concat (map enqueuedIn (history s))"

definition startedOps :: "tab \<Rightarrow> operation list" where
  "startedOps s = concat (map startedIn (history s))"

definition releasedOps :: "tab \<Rightarrow> operation list" where
  "releasedOps s = concat (map releasedIn (history s))"

definition discardedOps :: "tab \<Rightarrow> operation list" where
  "discardedOps s = concat (map discardedIn (history s))"

text \<open>The attempts and back-offs of one call, in order.\<close>

fun concerns :: "nat \<Rightarrow> history_event \<Rightarrow> bool" where
  "concerns i (Issued j a) = (i = j)"
| "concerns i (FastIssued j a) = (i = j)"
| "concerns i (Waited j ms) = (i = j)"
| "concerns i e = False"

definition attemptsOf :: "nat \<Rightarrow> tab \<Rightarrow> history_event list" where
  "attemptsOf i s = filter (concerns i) (history s)"

text \<open>
  The closures that are executing: taken from the queue and called, and not yet returned.
\<close>

definition executing :: "tab \<Rightarrow> task list" where
  "executing s = filter (\<lambda>t. t_phase t \<noteq> Returned) (transactions s)"

subsection \<open>What holds in every state of the queue\<close>

text \<open>
  A retry count that is a whole number and at least 1: the counts for which the last
  failing attempt is the one that reaches \<^verbatim>\<open>reject(error)\<close>.
\<close>

definition wholeCount :: "number \<Rightarrow> bool" where
  "wholeCount r = (case r of Finite q \<Rightarrow> 1 \<le> q \<and> of_int \<lfloor>q\<rfloor> = q | _ \<Rightarrow> False)"

text \<open>
  At most one closure is taken from the queue and not yet released, and the flag is set
  exactly then. Every started operation but the one in progress has been released. The
  operations are started in the order of their submission: the started ones followed by
  the waiting ones are the submitted ones, in order, without those that
  \<^verbatim>\<open>cleanupDatabase\<close> threw away, and nothing else is lost. A closure that waits for a back-off timer
  has not used up its retry count. A closure that has returned, and a released one, has
  settled its promise if its retry count is a whole number of at least 1.
\<close>

definition queueInvariant :: "tab \<Rightarrow> bool" where
  "queueInvariant s \<longleftrightarrow>
     length (transactions s) \<le> 1
   \<and> (isTransactionInProgress s \<longleftrightarrow> transactions s \<noteq> [])
   \<and> startedOps s = releasedOps s @ map t_op (transactions s)
   \<and> subseq (startedOps s @ pendingTransactions s) (submittedOps s)
   \<and> set (submittedOps s)
       = set (startedOps s) \<union> set (pendingTransactions s) \<union> set (discardedOps s)
   \<and> (\<forall>t \<in> set (transactions s). \<forall>a. t_phase t = Backoff a \<longrightarrow> ltNumber a (op_retries (t_op t)))
   \<and> (\<forall>t \<in> set (transactions s). t_phase t = Returned \<longrightarrow> wholeCount (op_retries (t_op t))
          \<longrightarrow> results s (op_id (t_op t)) \<noteq> Pending)
   \<and> (\<forall>op \<in> set (releasedOps s). wholeCount (op_retries op) \<longrightarrow> results s (op_id op) \<noteq> Pending)"

subsection \<open>Letting the event loop run\<close>

text \<open>
  The answers of a connection that answers every query: for each call and each attempt,
  the error \<^verbatim>\<open>db.query\<close> throws or the result it returns.
\<close>

type_synonym database = "nat \<Rightarrow> nat \<Rightarrow> error + queryResult"

text \<open>
  A scheduler that makes no new call and does not run \<^verbatim>\<open>cleanupDatabase\<close>: the
  connection answers the attempt of the queued
  closure that awaits one, the timer of a closure in back-off fires, a returned closure
  is observed by \<^verbatim>\<open>processPendingTransactions\<close>; then the same for the oldest call on
  the fast path; then the oldest timer fires. \<open>drain n\<close> takes up to \<open>n\<close> such steps and
  stops early when nothing is left to do.
\<close>

definition nextEvent :: "database \<Rightarrow> platform \<Rightarrow> tab \<Rightarrow> event option" where
  "nextEvent db env s =
     (case transactions s of
        t # ts \<Rightarrow>
          (let i = op_id (t_op t)
           in case t_phase t of
                AwaitQuery a \<Rightarrow> Some (QueryAnswered i (db i a) env)
              | Backoff a \<Rightarrow> Some (TimerFired (ResumeQueued i (backoffDelay a)))
              | Returned \<Rightarrow> Some (TransactionSettled i))
      | [] \<Rightarrow>
          (case fastCalls s of
             t # ts \<Rightarrow>
               (let i = op_id (t_op t)
                in case t_phase t of
                     AwaitQuery a \<Rightarrow> Some (QueryAnswered i (db i a) env)
                   | Backoff a \<Rightarrow> Some (TimerFired (ResumeFast i (backoffDelay a)))
                   | Returned \<Rightarrow> None)
           | [] \<Rightarrow>
               (case timers s of
                  tm # tms \<Rightarrow> Some (TimerFired tm)
                | [] \<Rightarrow> None)))"

fun drain :: "nat \<Rightarrow> database \<Rightarrow> platform \<Rightarrow> tab \<Rightarrow> tab" where
  "drain 0 db env s = s"
| "drain (Suc n) db env s =
     (case nextEvent db env s of
        None \<Rightarrow> s
      | Some e \<Rightarrow> (case step e s of None \<Rightarrow> s | Some s' \<Rightarrow> drain n db env s'))"

definition quiescent :: "tab \<Rightarrow> bool" where
  "quiescent s \<longleftrightarrow>
     transactions s = [] \<and> fastCalls s = [] \<and> timers s = []
     \<and> pendingTransactions s = [] \<and> \<not> isTransactionInProgress s"

text \<open>
  A retry count other than \<^verbatim>\<open>Infinity\<close>, for which the loop ends whatever the
  connection answers, and the number of attempts such a count allows: the whole part of a
  finite count of at least 1, and none for a smaller count, \<^verbatim>\<open>NaN\<close> and
  \<^verbatim>\<open>-Infinity\<close>.
\<close>

definition boundedRetries :: "number \<Rightarrow> bool" where
  "boundedRetries r = (r \<noteq> PositiveInfinity)"

definition attemptsAllowed :: "number \<Rightarrow> nat" where
  "attemptsAllowed r = (case r of Finite q \<Rightarrow> nat \<lfloor>q\<rfloor> | _ \<Rightarrow> 0)"

definition boundedCall :: "call \<Rightarrow> bool" where
  "boundedCall c = (c_retries c \<noteq> Some PositiveInfinity)"

text \<open>
  The retry loop in closed form, for a bounded retry count. With \<open>k\<close> attempts left, the
  attempt numbered \<open>a\<close> among them, \<open>whole\<close> telling whether the count is a whole number,
  and \<open>ans\<close> the answers to the attempts of the call: the final state of the promise on
  each path, and what follows in the history once attempt \<open>a\<close> has been issued. After the
  last attempt allowed has failed, a count that is not whole still satisfies
  \<^verbatim>\<open>attempt < retries\<close>: the loop waits once more and ends.
\<close>

fun queuedFrom ::
  "(nat \<Rightarrow> error + queryResult) \<Rightarrow> bool \<Rightarrow> nat \<Rightarrow> nat \<Rightarrow> queryResult promise" where
  "queuedFrom ans whole a 0 = Pending"
| "queuedFrom ans whole a (Suc k) =
     (case ans a of
        Inr result \<Rightarrow> Fulfilled result
      | Inl e \<Rightarrow>
          (if k = 0 then (if whole then Rejected e else Pending)
           else queuedFrom ans whole (Suc a) k))"

definition queuedOutcome :: "(nat \<Rightarrow> error + queryResult) \<Rightarrow> number \<Rightarrow> queryResult promise" where
  "queuedOutcome ans retries = queuedFrom ans (wholeCount retries) 1 (attemptsAllowed retries)"

fun fastFrom :: "(nat \<Rightarrow> error + queryResult) \<Rightarrow> error option \<Rightarrow> nat \<Rightarrow> nat \<Rightarrow> queryResult promise" where
  "fastFrom ans lastError a 0 =
     Rejected (case lastError of Some e \<Rightarrow> e | None \<Rightarrow> Error ''Query failed after retries'')"
| "fastFrom ans lastError a (Suc k) =
     (case ans a of
        Inr result \<Rightarrow> Fulfilled result
      | Inl e \<Rightarrow> fastFrom ans (Some e) (Suc a) k)"

definition fastOutcome :: "(nat \<Rightarrow> error + queryResult) \<Rightarrow> number \<Rightarrow> queryResult promise" where
  "fastOutcome ans retries = fastFrom ans None 1 (attemptsAllowed retries)"

fun afterIssue ::
  "(nat \<Rightarrow> nat \<Rightarrow> history_event) \<Rightarrow> nat \<Rightarrow> (nat \<Rightarrow> error + queryResult) \<Rightarrow> bool \<Rightarrow> nat \<Rightarrow> nat
     \<Rightarrow> history_event list" where
  "afterIssue issued i ans whole a 0 = []"
| "afterIssue issued i ans whole a (Suc k) =
     (case ans a of
        Inr result \<Rightarrow> []
      | Inl e \<Rightarrow>
          (if k = 0 then (if whole then [] else [Waited i (backoffDelay a)])
           else Waited i (backoffDelay a) # issued i (Suc a)
                  # afterIssue issued i ans whole (Suc a) k))"

definition attemptsTrace ::
  "(nat \<Rightarrow> nat \<Rightarrow> history_event) \<Rightarrow> nat \<Rightarrow> (nat \<Rightarrow> error + queryResult) \<Rightarrow> number
     \<Rightarrow> history_event list" where
  "attemptsTrace issued i ans retries =
     (if leNumber 1 retries
      then issued i 1
             # afterIssue issued i ans (wholeCount retries) 1 (attemptsAllowed retries)
      else [])"

text \<open>
  The history of a statement that fails at every one of \<open>r\<close> attempts, \<open>r\<close> the retry
  count.
\<close>

definition failingTrace :: "(nat \<Rightarrow> nat \<Rightarrow> history_event) \<Rightarrow> nat \<Rightarrow> nat \<Rightarrow> history_event list" where
  "failingTrace issued i r =
     concat (map (\<lambda>a. [issued i a, Waited i (100 * 2 ^ (a - 1))]) [1..<r]) @ [issued i r]"

text \<open>Calls made one after the other in one turn of the event loop, all past the guard.\<close>

definition submit :: "call list \<Rightarrow> event list" where
  "submit cs = map (\<lambda>c. Call c GuardPassed) cs"

definition queuedCall :: "call \<Rightarrow> bool" where
  "queuedCall c = (\<not> (c_skipQueue c \<and> \<not> isModifyingQuery (c_query c)))"

definition operationsOf :: "nat \<Rightarrow> call list \<Rightarrow> operation list" where
  "operationsOf n cs = map (\<lambda>(i, c). operationOf i c) (zip [n..<n + length cs] cs)"

definition stateAfter :: "event list \<Rightarrow> tab" where
  "stateAfter es = (case run es initialTab of Some s \<Rightarrow> s | None \<Rightarrow> initialTab)"

definition runs :: "event list \<Rightarrow> bool" where
  "runs es = (case run es initialTab of Some s \<Rightarrow> True | None \<Rightarrow> False)"

text \<open>
  What one queued operation adds to the history from the moment it is taken from the
  queue, and what it leaves in the promises.
\<close>

definition opTail :: "database \<Rightarrow> operation \<Rightarrow> history_event list" where
  "opTail db op =
     afterIssue Issued (op_id op) (db (op_id op)) (wholeCount (op_retries op)) 1
         (attemptsAllowed (op_retries op))
       @ [Released op]"

definition opHistory :: "database \<Rightarrow> operation \<Rightarrow> history_event list" where
  "opHistory db op =
     Started op # attemptsTrace Issued (op_id op) (db (op_id op)) (op_retries op) @ [Released op]"

definition applyOutcome ::
  "database \<Rightarrow> (nat \<Rightarrow> queryResult promise) \<Rightarrow> operation \<Rightarrow> (nat \<Rightarrow> queryResult promise)" where
  "applyOutcome db res op =
     (if res (op_id op) = Pending
      then res(op_id op := queuedOutcome (db (op_id op)) (op_retries op))
      else res)"

definition entryPhase :: "operation \<Rightarrow> phase" where
  "entryPhase op = (if leNumber 1 (op_retries op) then AwaitQuery 1 else Returned)"

text \<open>The attempts made on the fast path, as pairs of call and attempt number.\<close>

fun fastIssuedIn :: "history_event \<Rightarrow> (nat \<times> nat) list" where
  "fastIssuedIn (FastIssued i a) = [(i, a)]"
| "fastIssuedIn e = []"

definition fastAttempts :: "tab \<Rightarrow> (nat \<times> nat) list" where
  "fastAttempts s = concat (map fastIssuedIn (history s))"

subsection \<open>Example calls and runs\<close>

definition readCall :: "number option \<Rightarrow> bool \<Rightarrow> call" where
  "readCall r skip =
     \<lparr> c_query = ''SELECT * FROM patients'', c_retries = r, c_skipQueue = skip,
       c_broadcastTable = None \<rparr>"

definition writeCall :: "number option \<Rightarrow> bool \<Rightarrow> call" where
  "writeCall r skip =
     \<lparr> c_query = ''INSERT INTO patients (full_name) VALUES ($1)'', c_retries = r,
       c_skipQueue = skip, c_broadcastTable = None \<rparr>"

definition alwaysFailing :: database where
  "alwaysFailing i a = Inl (Error ''connection lost'')"

text \<open>
  Two queued calls, the first with \<^verbatim>\<open>retries: 0\<close>; its closure returns at once, the
  \<^verbatim>\<open>finally\<close> block runs, and the timer starts the second.
\<close>

definition unsettledRun :: "event list" where
  "unsettledRun =
     [Call (readCall (Some (Finite 0)) False) GuardPassed,
      Call (readCall None False) GuardPassed,
      TransactionSettled 0,
      TimerFired ProcessQueue]"

text \<open>One queued call with \<^verbatim>\<open>retries: 1\<close> whose only attempt fails.\<close>

definition failedRun :: "event list" where
  "failedRun =
     [Call (readCall (Some (Finite 1)) False) GuardPassed,
      QueryAnswered 0 (Inl (Error ''connection lost'')) (samplePlatform None None None),
      TransactionSettled 0]"

text \<open>
  The state reached when the calls of a list are made in one turn from the initial state
  and the event loop then takes up to \<open>n\<close> steps.
\<close>

definition drained :: "nat \<Rightarrow> database \<Rightarrow> platform \<Rightarrow> call list \<Rightarrow> tab" where
  "drained n db env cs = drain n db env (stateAfter (submit cs))"

text \<open>
  Two queued calls with the default retry count on a connection that is lost. The first
  attempt of the first call fails; the health check finds the connection dead and
  \<^verbatim>\<open>cleanupDatabase\<close> empties the queue, in which the second call waits; the first call
  goes through its two remaining attempts and is rejected; the \<^verbatim>\<open>finally\<close> block runs
  and the timer finds the queue empty.
\<close>

definition droppedRun :: "event list" where
  "droppedRun =
     [Call (writeCall None False) GuardPassed,
      Call (readCall None False) GuardPassed,
      QueryAnswered 0 (Inl (Error ''connection lost'')) (samplePlatform None None None),
      DatabaseCleanedUp,
      TimerFired (ResumeQueued 0 100),
      QueryAnswered 0 (Inl (Error ''connection lost'')) (samplePlatform None None None),
      TimerFired (ResumeQueued 0 200),
      QueryAnswered 0 (Inl (Error ''connection lost'')) (samplePlatform None None None),
      TransactionSettled 0,
      TimerFired ProcessQueue]"

text \<open>
  What the states look like in which the first call, its retry count \<^verbatim>\<open>Infinity\<close>,
  goes on retrying while the second call waits in the queue.
\<close>

definition retrying :: "tab \<Rightarrow> bool" where
  "retrying s \<longleftrightarrow>
     (case transactions s of
        [t] \<Rightarrow>
          op_id (t_op t) = 0 \<and> op_retries (t_op t) = PositiveInfinity
          \<and> (case t_phase t of
                 AwaitQuery a \<Rightarrow> timers s = []
               | Backoff a \<Rightarrow> timers s = [ResumeQueued 0 (backoffDelay a)]
               | Returned \<Rightarrow> False)
      | _ \<Rightarrow> False)
     \<and> isTransactionInProgress s
     \<and> map op_id (pendingTransactions s) = [1]
     \<and> map op_id (startedOps s) = [0]
     \<and> results s 0 = Pending \<and> results s 1 = Pending"

text \<open>A connection that rejects every attempt of the first call and answers all others.\<close>

definition firstFails :: database where
  "firstFails i a = (if i = 0 then Inl (Error ''constraint violated'') else Inr \<lparr>rows = Some []\<rparr>)"

text \<open>
  What holds of the call numbers in every state: the numbers in use are below
  \<open>nextCall\<close> and identify one call each, the promise of a call not yet made is
  pending, and a queued call whose retry count admits no first attempt (\<^verbatim>\<open>1 <= retries\<close>
  is false: a count below 1, \<^verbatim>\<open>NaN\<close>, \<^verbatim>\<open>-Infinity\<close>) makes no attempt and keeps
  its promise pending.
\<close>

definition callInvariant :: "tab \<Rightarrow> bool" where
  "callInvariant s \<longleftrightarrow>
     (\<forall>op \<in> set (submittedOps s). op_id op < nextCall s)
   \<and> distinct (map op_id (submittedOps s))
   \<and> (\<forall>t \<in> set (fastCalls s).
          op_id (t_op t) < nextCall s \<and> op_id (t_op t) \<notin> op_id ` set (submittedOps s))
   \<and> (\<forall>t \<in> set (transactions s). \<not> leNumber 1 (op_retries (t_op t)) \<longrightarrow> t_phase t = Returned)
   \<and> (\<forall>i \<ge> nextCall s. results s i = Pending \<and> attemptsOf i s = [])
   \<and> (\<forall>op \<in> set (submittedOps s).
          \<not> leNumber 1 (op_retries op)
          \<longrightarrow> results s (op_id op) = Pending \<and> attemptsOf (op_id op) s = [])"

section \<open>The session: \<^verbatim>\<open>initializeDatabase\<close>, \<^verbatim>\<open>cleanupDatabase\<close> and \<^verbatim>\<open>dbPromise\<close>\<close>

text \<open>
  \<^verbatim>\<open>
  async function initializeDatabase(config: Partial<DatabaseConfig> = {}): Promise<PGlite> {
    if (isInitialized && dbInstance) { return dbInstance; }
    const fullConfig: DatabaseConfig = { ...DEFAULT_CONFIG, ...config };
    try {
      const isInitializedInOtherTab = localStorage.getItem(DB_INIT_KEY) === "true";
      const [wasmResponse, fsResponse] = await Promise.all([
        fetch(fullConfig.wasmPath), fetch(fullConfig.fsBundlePath) ]);
      if (!wasmResponse.ok) { throw new Error(`Failed to fetch WASM: ...`); }
      if (!fsResponse.ok) { throw new Error(`Failed to fetch FS bundle: ...`); }
      const [wasmModule, fsBundle] = await Promise.all([
        WebAssembly.compileStreaming(wasmResponse), fsResponse.blob() ]);
      dbInstance = await PGlite.create({ wasmModule, fsBundle, dataDir: ..., ... });
      await dbInstance.query("SELECT 1");
      localStorage.setItem(DB_INIT_KEY, "true");
      try { dbChannel = new BroadcastChannel(fullConfig.channelName); dbChannel.postMessage(...); }
      catch (channelError) { console.error(...); }
      isInitialized = true;
      connectionCheckInterval = setInterval(async () => { ... }, 5000);
      window.addEventListener('storage', handleStorageEvent);
      return dbInstance;
    } catch (error) {
      console.error("Database initialization error:", error);
      await cleanupDatabase();
      throw error;
    }
  }
  export const dbPromise = initializeDatabase();\<close>

  A call is suspended at four places: the two fetches, the compilation, the creation of
  the connection and the verifying query. The model has one step for the start of a call
  and one for each resumption, so that calls in progress interleave as the event loop
  lets them. A connection is a number, given out by \<^verbatim>\<open>PGlite.create\<close> in the order of
  creation.
\<close>

record databaseConfig =
  wasmPath :: string
  fsBundlePath :: string
  maxQueueSize :: nat
  databaseName :: string
  channelName :: string

record partialConfig =
  p_wasmPath :: "string option"
  p_fsBundlePath :: "string option"
  p_maxQueueSize :: "nat option"
  p_databaseName :: "string option"
  p_channelName :: "string option"

definition DEFAULT_CONFIG :: databaseConfig where
  "DEFAULT_CONFIG =
     \<lparr> wasmPath = ''/pglite.wasm'', fsBundlePath = ''/pglite.data'', maxQueueSize = 100,
       databaseName = ''idb://patient_db'', channelName = ''patient_data_channel'' \<rparr>"

definition fullConfig :: "partialConfig \<Rightarrow> databaseConfig" where
  "fullConfig config =
     \<lparr> wasmPath = (case p_wasmPath config of Some v \<Rightarrow> v | None \<Rightarrow> wasmPath DEFAULT_CONFIG),
       fsBundlePath =
         (case p_fsBundlePath config of Some v \<Rightarrow> v | None \<Rightarrow> fsBundlePath DEFAULT_CONFIG),
       maxQueueSize =
         (case p_maxQueueSize config of Some v \<Rightarrow> v | None \<Rightarrow> maxQueueSize DEFAULT_CONFIG),
       databaseName =
         (case p_databaseName config of Some v \<Rightarrow> v | None \<Rightarrow> databaseName DEFAULT_CONFIG),
       channelName =
         (case p_channelName config of Some v \<Rightarrow> v | None \<Rightarrow> channelName DEFAULT_CONFIG) \<rparr>"

definition noConfig :: partialConfig where
  "noConfig =
     \<lparr> p_wasmPath = None, p_fsBundlePath = None, p_maxQueueSize = None,
       p_databaseName = None, p_channelName = None \<rparr>"

datatype initPhase = AwaitFetch | AwaitCompile | AwaitCreate | AwaitVerify

record initCall =
  ic_id :: nat
  ic_config :: databaseConfig
  ic_phase :: initPhase

text \<open>
  The state of the session: the module variables \<^verbatim>\<open>isInitialized\<close>,
  \<^verbatim>\<open>dbInstance\<close>, \<^verbatim>\<open>dbChannel\<close> (the name of the open channel) and
  \<^verbatim>\<open>connectionCheckInterval\<close>; the marker \<^verbatim>\<open>DB_INIT_KEY\<close> in
  \<^verbatim>\<open>localStorage\<close>; the running interval timers; whether the \<^verbatim>\<open>storage\<close> listener
  is registered; the addresses fetched so far; the number of connections created and the
  connections closed; the calls of \<^verbatim>\<open>initializeDatabase\<close> in progress; and, for each
  finished call, what its promise settled with (a rejection reason, or the value of
  \<^verbatim>\<open>dbInstance\<close> at the \<^verbatim>\<open>return\<close>).
\<close>

record session =
  isInitialized :: bool
  dbInstance :: "nat option"
  sessionChannel :: "string option"
  connectionCheckInterval :: "nat option"
  initMarker :: bool
  intervals :: "nat list"
  intervalsStarted :: nat
  storageListener :: bool
  fetchLog :: "string list"
  instancesCreated :: nat
  instancesClosed :: "nat list"
  initCalls :: "initCall list"
  initResults :: "(nat \<times> (error + nat option)) list"
  nextInit :: nat
  sessionConsole :: "console_entry list"

definition initialSession :: session where
  "initialSession =
     \<lparr> isInitialized = False, dbInstance = None, sessionChannel = None,
       connectionCheckInterval = None, initMarker = False, intervals = [],
       intervalsStarted = 0, storageListener = False, fetchLog = [], instancesCreated = 0,
       instancesClosed = [], initCalls = [], initResults = [], nextInit = 0,
       sessionConsole = [] \<rparr>"

text \<open>
  \<^verbatim>\<open>cleanupDatabase\<close>, as far as it acts on the session. Its one suspension,
  \<^verbatim>\<open>await dbInstance.close()\<close>, is taken in the same step. Its line
  \<^verbatim>\<open>pendingTransactions = []\<close> acts on the state of the transaction queue, where it
  is \<open>cleanupDatabase_queue\<close>. The health check that a successful call starts runs
  \<^verbatim>\<open>cleanupDatabase\<close> and then \<^verbatim>\<open>initializeDatabase(config)\<close> when the connection
  does not answer; here that is the step \<open>CleanedUp\<close> followed by \<open>InitCalled\<close>.
\<close>

definition cleanupDatabase :: "session \<Rightarrow> session" where
  "cleanupDatabase s =
     s\<lparr> intervals := (case connectionCheckInterval s of
                         Some t \<Rightarrow> removeAll t (intervals s)
                       | None \<Rightarrow> intervals s),
        storageListener := False,
        instancesClosed := (case dbInstance s of
                              Some h \<Rightarrow> instancesClosed s @ [h]
                            | None \<Rightarrow> instancesClosed s),
        dbInstance := None,
        sessionChannel := None,
        isInitialized := False,
        sessionConsole := sessionConsole s @ [ConsoleLog ''Database resources cleaned up''] \<rparr>"

text \<open>The \<^verbatim>\<open>catch\<close> block of \<^verbatim>\<open>initializeDatabase\<close>: log, clean up, rethrow.\<close>

definition initFailed :: "nat \<Rightarrow> error \<Rightarrow> session \<Rightarrow> session" where
  "initFailed i e s =
     (let s1 = cleanupDatabase
                 (s\<lparr>sessionConsole := sessionConsole s
                        @ [ConsoleError ''Database initialization error:'' e]\<rparr>)
      in s1\<lparr> initCalls := filter (\<lambda>c. ic_id c \<noteq> i) (initCalls s1),
              initResults := initResults s1 @ [(i, Inl e)] \<rparr>)"

definition setPhase :: "nat \<Rightarrow> initPhase \<Rightarrow> session \<Rightarrow> session" where
  "setPhase i ph s =
     s\<lparr>initCalls := map (\<lambda>c. if ic_id c = i then c\<lparr>ic_phase := ph\<rparr> else c) (initCalls s)\<rparr>"

definition initCallOf :: "nat \<Rightarrow> session \<Rightarrow> initCall option" where
  "initCallOf i s = find (\<lambda>c. ic_id c = i) (initCalls s)"

text \<open>
  The call, up to its first suspension. Of a \<^verbatim>\<open>console.log\<close> with a value the
  console keeps the text.
\<close>

definition initializeDatabase :: "partialConfig \<Rightarrow> session \<Rightarrow> session" where
  "initializeDatabase config s =
     (let i = nextInit s; s0 = s\<lparr>nextInit := Suc i\<rparr>
      in if isInitialized s \<and> dbInstance s \<noteq> None
         then s0\<lparr>initResults := initResults s0 @ [(i, Inr (dbInstance s))]\<rparr>
         else (let cfg = fullConfig config
               in s0\<lparr> sessionConsole := sessionConsole s0
                         @ [ConsoleLog ''Initializing database connection...'',
                            ConsoleLog ''Database initialized in other tab:''],
                       fetchLog := fetchLog s0 @ [wasmPath cfg, fsBundlePath cfg],
                       initCalls := initCalls s0
                         @ [\<lparr>ic_id = i, ic_config = cfg, ic_phase = AwaitFetch\<rparr>] \<rparr>))"

text \<open>The two responses of \<^verbatim>\<open>fetch\<close>: \<^verbatim>\<open>ok\<close> with \<^verbatim>\<open>status\<close> and \<^verbatim>\<open>statusText\<close>.\<close>

record response =
  ok :: bool
  statusLine :: string

definition fetched :: "nat \<Rightarrow> error + response \<times> response \<Rightarrow> session \<Rightarrow> session" where
  "fetched i answer s =
     (case answer of
        Inl e \<Rightarrow> initFailed i e s
      | Inr (wasmResponse, fsResponse) \<Rightarrow>
          (if \<not> ok wasmResponse
           then initFailed i (Error (''Failed to fetch WASM: '' @ statusLine wasmResponse)) s
           else if \<not> ok fsResponse
           then initFailed i (Error (''Failed to fetch FS bundle: '' @ statusLine fsResponse)) s
           else setPhase i AwaitCompile s))"

definition compiled :: "nat \<Rightarrow> error + unit \<Rightarrow> session \<Rightarrow> session" where
  "compiled i answer s =
     (case answer of
        Inl e \<Rightarrow> initFailed i e s
      | Inr u \<Rightarrow> setPhase i AwaitCreate s)"

definition instanceCreated :: "nat \<Rightarrow> error + unit \<Rightarrow> session \<Rightarrow> session" where
  "instanceCreated i answer s =
     (case answer of
        Inl e \<Rightarrow> initFailed i e s
      | Inr u \<Rightarrow>
          setPhase i AwaitVerify
            (s\<lparr> dbInstance := Some (instancesCreated s),
                instancesCreated := Suc (instancesCreated s) \<rparr>))"

text \<open>
  \<^verbatim>\<open>
  try {
    dbChannel = new BroadcastChannel(fullConfig.channelName);
    console.log("Broadcast channel established");
    dbChannel.postMessage({ type: "tab_online", ... });
  } catch (channelError) {
    console.error("Failed to create broadcast channel:", channelError);
  }\<close>

  What the platform does with the channel: both calls succeed, the constructor throws,
  or \<^verbatim>\<open>postMessage\<close> throws. In the last case \<^verbatim>\<open>dbChannel\<close> has been assigned
  already and the channel stays open; when the constructor throws, \<^verbatim>\<open>dbChannel\<close>
  keeps the value it had.
\<close>

datatype channelSetup = ChannelOpened | ConstructorThrew error | PostMessageThrew error

definition openChannel :: "string \<Rightarrow> channelSetup \<Rightarrow> session \<Rightarrow> session" where
  "openChannel name setup s =
     (case setup of
        ChannelOpened \<Rightarrow>
          s\<lparr> sessionChannel := Some name,
              sessionConsole := sessionConsole s @ [ConsoleLog ''Broadcast channel established''] \<rparr>
      | ConstructorThrew e \<Rightarrow>
          s\<lparr>sessionConsole := sessionConsole s
                @ [ConsoleError ''Failed to create broadcast channel:'' e]\<rparr>
      | PostMessageThrew e \<Rightarrow>
          s\<lparr> sessionChannel := Some name,
              sessionConsole := sessionConsole s
                @ [ConsoleLog ''Broadcast channel established'',
                   ConsoleError ''Failed to create broadcast channel:'' e] \<rparr>)"

text \<open>
  After the verifying query: the rest of the \<^verbatim>\<open>try\<close> block runs without suspension.
\<close>

definition verified :: "initCall \<Rightarrow> error + unit \<Rightarrow> channelSetup \<Rightarrow> session \<Rightarrow> session" where
  "verified c answer setup s =
     (case answer of
        Inl e \<Rightarrow> initFailed (ic_id c) e s
      | Inr u \<Rightarrow>
          (let s1 = s\<lparr> initMarker := True,
                       sessionConsole := sessionConsole s
                         @ [ConsoleLog ''Database connection established''] \<rparr>;
               s2 = openChannel (channelName (ic_config c)) setup s1;
               t = intervalsStarted s2
           in s2\<lparr> isInitialized := True,
                   sessionConsole := sessionConsole s2 @ [ConsoleLog ''Database fully initialized''],
                   connectionCheckInterval := Some t,
                   intervals := intervals s2 @ [t],
                   intervalsStarted := Suc t,
                   storageListener := True,
                   initCalls := filter (\<lambda>c'. ic_id c' \<noteq> ic_id c) (initCalls s2),
                   initResults := initResults s2 @ [(ic_id c, Inr (dbInstance s2))] \<rparr>))"

datatype initEvent =
    InitCalled partialConfig
  | Fetched nat "error + response \<times> response"
  | Compiled nat "error + unit"
  | InstanceCreated nat "error + unit"
  | Verified nat "error + unit" channelSetup
  | CleanedUp

definition resumed ::
  "nat \<Rightarrow> initPhase \<Rightarrow> (initCall \<Rightarrow> session \<Rightarrow> session) \<Rightarrow> session \<Rightarrow> session option" where
  "resumed i ph continue s =
     (case initCallOf i s of
        None \<Rightarrow> None
      | Some c \<Rightarrow> (if ic_phase c = ph then Some (continue c s) else None))"

fun initStep :: "initEvent \<Rightarrow> session \<Rightarrow> session option" where
  "initStep (InitCalled config) s = Some (initializeDatabase config s)"
| "initStep (Fetched i answer) s = resumed i AwaitFetch (\<lambda>c. fetched i answer) s"
| "initStep (Compiled i answer) s = resumed i AwaitCompile (\<lambda>c. compiled i answer) s"
| "initStep (InstanceCreated i answer) s = resumed i AwaitCreate (\<lambda>c. instanceCreated i answer) s"
| "initStep (Verified i answer setup) s =
     resumed i AwaitVerify (\<lambda>c. verified c answer setup) s"
| "initStep CleanedUp s = Some (cleanupDatabase s)"

fun initRun :: "initEvent list \<Rightarrow> session \<Rightarrow> session option" where
  "initRun [] s = Some s"
| "initRun (e # es) s = (case initStep e s of None \<Rightarrow> None | Some s' \<Rightarrow> initRun es s')"

definition sessionAfter :: "initEvent list \<Rightarrow> session" where
  "sessionAfter es = (case initRun es initialSession of Some s \<Rightarrow> s | None \<Rightarrow> initialSession)"

text \<open>
  \<^verbatim>\<open>dbPromise\<close> is the promise of the call made when the module is loaded, the call
  numbered 0: pending (\<open>None\<close>) until that call has finished.
\<close>

definition dbPromise :: "session \<Rightarrow> (error + nat option) option" where
  "dbPromise s = map_of (initResults s) 0"

definition okResponse :: response where
  "okResponse = \<lparr>ok = True, statusLine = ''200 OK''\<rparr>"

text \<open>A call that runs from start to \<^verbatim>\<open>return\<close> with every step successful.\<close>

definition successfulInit :: "nat \<Rightarrow> initEvent list" where
  "successfulInit i =
     [Fetched i (Inr (okResponse, okResponse)), Compiled i (Inr ()),
      InstanceCreated i (Inr ()), Verified i (Inr ()) ChannelOpened]"

text \<open>The module is loaded and its call completes.\<close>

definition loaded :: session where
  "loaded = sessionAfter (InitCalled noConfig # successfulInit 0)"

text \<open>Two calls, the second made while the first waits for its fetches.\<close>

definition overlappingInits :: "initEvent list" where
  "overlappingInits =
     [InitCalled noConfig, InitCalled noConfig] @ successfulInit 0 @ successfulInit 1"

section \<open>Properties of the statement text functions\<close>

lemma isWhiteSpace_toLowerChar: "isWhiteSpace (toLowerChar c) = isWhiteSpace c"
  unfolding isWhiteSpace_def toLowerChar_def Let_def
  by auto

lemma dropWhile_toLowerCase:
  "dropWhile isWhiteSpace (toLowerCase s) = toLowerCase (dropWhile isWhiteSpace s)"
  by (induction s) (simp_all add: toLowerCase_def isWhiteSpace_toLowerChar)

lemma rev_toLowerCase: "rev (toLowerCase s) = toLowerCase (rev s)"
  by (simp add: toLowerCase_def rev_map)

lemma trim_toLowerCase: "trim (toLowerCase s) = toLowerCase (trim s)"
  by (simp add: trim_def dropWhile_toLowerCase rev_toLowerCase)

lemma startsWith_prefix: "startsWith s p = prefix p s"
  by (auto simp: startsWith_def prefix_def take_is_prefix)
     (metis append_eq_conv_conj)

text \<open>
  C7. \<^verbatim>\<open>isModifyingQuery\<close> is true exactly for the statements that, trimmed and
  lowercased, begin with \<open>insert\<close>, \<open>update\<close>, \<open>delete\<close>, \<open>create\<close>, \<open>alter\<close>,
  \<open>drop\<close> or \<open>truncate\<close>; it is false for \<open>"  select 1"\<close> and true for
  \<open>"INSERT INTO t ..."\<close>.
\<close>

theorem isModifyingQuery_classification:
  "isModifyingQuery q = spec_mutating q
   \<and> isModifyingQuery ''  select 1'' = False
   \<and> isModifyingQuery ''INSERT INTO t ...'' = True"
proof -
  have "isModifyingQuery q = spec_mutating q"
    by (simp add: isModifyingQuery_def spec_mutating_def mutating_prefixes_def
        startsWith_prefix trim_toLowerCase Let_def)
  moreover have "isModifyingQuery ''  select 1'' = False"
    by code_simp
  moreover have "isModifyingQuery ''INSERT INTO t ...'' = True"
    by code_simp
  ultimately show ?thesis by simp
qed

lemma matchAlternative_nonempty: "matchAlternative kw s = Some g \<Longrightarrow> g \<noteq> []"
  by (auto simp: matchAlternative_def Let_def split: if_splits)

lemma matchAt_token:
  assumes "matchAt s = Some (g1, g2, g3)"
  shows "orElse (orElse g1 g2) g3 \<noteq> None"
proof (cases "matchAlternative ''from'' s")
  case (Some g)
  with assms have "g1 = Some g \<and> g2 = None \<and> g3 = None"
    by (simp add: matchAt_def)
  then show ?thesis
    using matchAlternative_nonempty[OF Some] by (simp add: orElse_def)
next
  case None
  note no_from = None
  show ?thesis
  proof (cases "matchAlternative ''into'' s")
    case (Some g)
    with assms no_from have "g1 = None \<and> g2 = Some g \<and> g3 = None"
      by (simp add: matchAt_def)
    then show ?thesis
      using matchAlternative_nonempty[OF Some] by (simp add: orElse_def)
  next
    case None
    note no_into = None
    show ?thesis
    proof (cases "matchAlternative ''update'' s")
      case (Some g)
      with assms no_from no_into have "g1 = None \<and> g2 = None \<and> g3 = Some g"
        by (simp add: matchAt_def)
      then show ?thesis
        using matchAlternative_nonempty[OF Some] by (simp add: orElse_def)
    next
      case None
      with assms no_from no_into show ?thesis by (simp add: matchAt_def)
    qed
  qed
qed

lemma tokenAt_None: "tokenAt s i = None \<longleftrightarrow> matchAt (drop i s) = None"
  by (auto simp: tokenAt_def split: option.splits dest: matchAt_token)

lemma regexMatch_Some:
  "regexMatch s = Some m \<longleftrightarrow>
     (\<exists>i. matchAt (drop i s) = Some m \<and> (\<forall>j<i. matchAt (drop j s) = None))"
proof (induction s)
  case Nil
  then show ?case by auto
next
  case (Cons c cs)
  show ?case
  proof (cases "matchAt (c # cs)")
    case None
    have "(\<exists>i. matchAt (drop i (c # cs)) = Some m \<and> (\<forall>j<i. matchAt (drop j (c # cs)) = None))
        \<longleftrightarrow> (\<exists>i. matchAt (drop i cs) = Some m \<and> (\<forall>j<i. matchAt (drop j cs) = None))"
      (is "?L \<longleftrightarrow> ?R")
    proof
      assume ?L
      then obtain i where i: "matchAt (drop i (c # cs)) = Some m"
        "\<forall>j<i. matchAt (drop j (c # cs)) = None" by blast
      with None obtain k where k: "i = Suc k" by (cases i) auto
      have "\<forall>j<k. matchAt (drop j cs) = None"
      proof (intro allI impI)
        fix j assume "j < k"
        then have "Suc j < i" using k by simp
        with i(2) have "matchAt (drop (Suc j) (c # cs)) = None" by blast
        then show "matchAt (drop j cs) = None" by simp
      qed
      with i(1) k show ?R by auto
    next
      assume ?R
      then obtain i where i: "matchAt (drop i cs) = Some m"
        "\<forall>j<i. matchAt (drop j cs) = None" by blast
      have "\<forall>j<Suc i. matchAt (drop j (c # cs)) = None"
      proof (intro allI impI)
        fix j assume "j < Suc i"
        then show "matchAt (drop j (c # cs)) = None"
          using None i(2) by (cases j) auto
      qed
      moreover have "matchAt (drop (Suc i) (c # cs)) = Some m" using i(1) by simp
      ultimately show ?L by blast
    qed
    with None Cons show ?thesis by simp
  next
    case (Some m')
    have "(\<exists>i. matchAt (drop i (c # cs)) = Some m \<and> (\<forall>j<i. matchAt (drop j (c # cs)) = None))
        \<longleftrightarrow> m' = m"
    proof
      assume "\<exists>i. matchAt (drop i (c # cs)) = Some m \<and> (\<forall>j<i. matchAt (drop j (c # cs)) = None)"
      then obtain i where i: "matchAt (drop i (c # cs)) = Some m"
        "\<forall>j<i. matchAt (drop j (c # cs)) = None" by blast
      show "m' = m"
      proof (cases i)
        case 0
        with i(1) Some show ?thesis by simp
      next
        case (Suc k)
        with i(2) have "matchAt (drop 0 (c # cs)) = None" by blast
        with Some show ?thesis by simp
      qed
    next
      assume "m' = m"
      with Some have "matchAt (drop 0 (c # cs)) = Some m" by simp
      then show "\<exists>i. matchAt (drop i (c # cs)) = Some m \<and> (\<forall>j<i. matchAt (drop j (c # cs)) = None)"
        by (intro exI[of _ 0]) simp
    qed
    with Some show ?thesis by auto
  qed
qed

lemma regexMatch_None: "regexMatch s = None \<longleftrightarrow> (\<forall>i. matchAt (drop i s) = None)"
proof -
  have "regexMatch s \<noteq> None \<longleftrightarrow> (\<exists>i. matchAt (drop i s) \<noteq> None)"
  proof
    assume "regexMatch s \<noteq> None"
    then obtain m where "regexMatch s = Some m" by auto
    then obtain i where "matchAt (drop i s) = Some m"
      using regexMatch_Some[of s m] by blast
    then have "matchAt (drop i s) \<noteq> None" by simp
    then show "\<exists>i. matchAt (drop i s) \<noteq> None" by blast
  next
    assume "\<exists>i. matchAt (drop i s) \<noteq> None"
    then obtain i where i: "matchAt (drop i s) \<noteq> None" by blast
    define k where "k = (LEAST i. matchAt (drop i s) \<noteq> None)"
    have k1: "matchAt (drop k s) \<noteq> None" unfolding k_def using i by (rule LeastI)
    have k2: "\<forall>j<k. matchAt (drop j s) = None"
      unfolding k_def using not_less_Least by blast
    from k1 obtain m where "matchAt (drop k s) = Some m" by auto
    with k2 have "regexMatch s = Some m" by (auto simp: regexMatch_Some)
    then show "regexMatch s \<noteq> None" by simp
  qed
  then show ?thesis by metis
qed

lemma firstToken_Some:
  "(case regexMatch s of Some (g1, g2, g3) \<Rightarrow> orElse (orElse g1 g2) g3 | None \<Rightarrow> None) = Some t
   \<longleftrightarrow> (\<exists>i. tokenAt s i = Some t \<and> (\<forall>j<i. tokenAt s j = None))"
  (is "?L \<longleftrightarrow> ?R")
proof
  assume ?L
  then obtain g1 g2 g3 where m: "regexMatch s = Some (g1, g2, g3)"
    and t: "orElse (orElse g1 g2) g3 = Some t"
    by (auto split: option.splits)
  from m obtain i where "matchAt (drop i s) = Some (g1, g2, g3)"
    "\<forall>j<i. matchAt (drop j s) = None"
    by (auto simp: regexMatch_Some)
  with t show ?R by (auto simp: tokenAt_def tokenAt_None intro!: exI[of _ i])
next
  assume ?R
  then obtain i where i: "tokenAt s i = Some t" "\<forall>j<i. tokenAt s j = None" by blast
  from i(1) obtain g1 g2 g3 where g: "matchAt (drop i s) = Some (g1, g2, g3)"
    "orElse (orElse g1 g2) g3 = Some t"
    by (auto simp: tokenAt_def split: option.splits)
  from i(2) have "\<forall>j<i. matchAt (drop j s) = None" by (simp add: tokenAt_None)
  with g(1) have "regexMatch s = Some (g1, g2, g3)" by (auto simp: regexMatch_Some)
  with g(2) show ?L by simp
qed

lemma firstToken_None:
  "(case regexMatch s of Some (g1, g2, g3) \<Rightarrow> orElse (orElse g1 g2) g3 | None \<Rightarrow> None) = None
   \<longleftrightarrow> (\<forall>i. tokenAt s i = None)"
proof (cases "regexMatch s")
  case None
  then have "\<forall>i. matchAt (drop i s) = None" by (simp add: regexMatch_None)
  with None show ?thesis by (simp add: tokenAt_None)
next
  case (Some m)
  obtain g1 g2 g3 where m: "m = (g1, g2, g3)" by (cases m) auto
  from Some obtain i where i: "matchAt (drop i s) = Some (g1, g2, g3)"
    using regexMatch_Some[of s m] m by blast
  then have "orElse (orElse g1 g2) g3 \<noteq> None" by (rule matchAt_token)
  moreover from i have "tokenAt s i \<noteq> None" by (simp add: tokenAt_None)
  ultimately show ?thesis using Some m by auto
qed

text \<open>
  C8, as the specification words it, fails: the token is taken from the lowercased text,
  so a table written \<open>Patients\<close> is reported as \<open>patients\<close>.
\<close>

theorem getAffectedTable_case_counterexample:
  "getAffectedTable ''SELECT * FROM Patients'' = Some ''patients''
   \<and> spec_affectedTable ''SELECT * FROM Patients'' = Some ''Patients''
   \<and> getAffectedTable ''SELECT * FROM Patients'' \<noteq> spec_affectedTable ''SELECT * FROM Patients''"
  by code_simp

text \<open>
  C8, amended. \<^verbatim>\<open>getAffectedTable\<close> returns the token captured at the first position
  of the lowercased statement text where \<open>from\<close>, \<open>into\<close> or \<open>update\<close> is followed
  by white space and a token, and none exactly when no position matches. It yields
  \<open>patients\<close> for \<open>SELECT * FROM patients WHERE id=1\<close> and for
  \<open>INSERT INTO patients (...) VALUES (...)\<close>.
\<close>

theorem getAffectedTable_first_match:
  "(getAffectedTable q = Some t \<longleftrightarrow>
      (\<exists>i. tokenAt (toLowerCase q) i = Some t \<and> (\<forall>j<i. tokenAt (toLowerCase q) j = None)))
   \<and> (getAffectedTable q = None \<longleftrightarrow> (\<forall>i. tokenAt (toLowerCase q) i = None))
   \<and> getAffectedTable ''SELECT * FROM patients WHERE id=1'' = Some ''patients''
   \<and> getAffectedTable ''INSERT INTO patients (...) VALUES (...)'' = Some ''patients''"
proof -
  have "getAffectedTable q = Some t \<longleftrightarrow>
      (\<exists>i. tokenAt (toLowerCase q) i = Some t \<and> (\<forall>j<i. tokenAt (toLowerCase q) j = None))"
    unfolding getAffectedTable_def Let_def by (rule firstToken_Some)
  moreover have "getAffectedTable q = None \<longleftrightarrow> (\<forall>i. tokenAt (toLowerCase q) i = None)"
    unfolding getAffectedTable_def Let_def by (rule firstToken_None)
  moreover have "getAffectedTable ''SELECT * FROM patients WHERE id=1'' = Some ''patients''"
    by code_simp
  moreover have "getAffectedTable ''INSERT INTO patients (...) VALUES (...)'' = Some ''patients''"
    by code_simp
  ultimately show ?thesis by blast
qed

theorem getAffectedTable_first_match_witness:
  "getAffectedTable ''select fromage FROM  T1;'' = Some ''t1''
   \<and> (\<exists>i. tokenAt (toLowerCase ''select fromage FROM  T1;'') i = Some ''t1'')
   \<and> getAffectedTable ''SELECT 1'' = None
   \<and> (\<forall>i. tokenAt (toLowerCase ''SELECT 1'') i = None)"
proof -
  have a: "getAffectedTable ''select fromage FROM  T1;'' = Some ''t1''" by code_simp
  have b: "getAffectedTable ''SELECT 1'' = None" by code_simp
  from a b show ?thesis
    using getAffectedTable_first_match [of "''select fromage FROM  T1;''" "''t1''"]
      getAffectedTable_first_match [of "''SELECT 1''" "''t1''"]
    by blast
qed

section \<open>Properties of the change broadcaster\<close>

lemma broadcastDatabaseChange_never_raises:
  "fst (broadcastDatabaseChange env query hint b) = Inr ()"
  by (simp add: broadcastDatabaseChange_def Let_def split: prod.splits sum.splits)

text \<open>
  With no broadcast channel (\<^verbatim>\<open>dbChannel\<close> is \<^verbatim>\<open>null\<close>) and a storage that accepts
  the write, the marker is written to \<^verbatim>\<open>localStorage\<close>.
\<close>

lemma broadcastDatabaseChange_without_channel:
  assumes "dbChannel b = None" and "setItemThrows env = None"
  shows "localStorage (snd (broadcastDatabaseChange env query hint b)) ''db_change_notification''
         = Some (StoredJson ((makeChangeInfo env query hint)\<lparr>ci_timestamp := dateNowStored env\<rparr>))"
  using assms
  by (simp add: broadcastDatabaseChange_def broadcastTry_def setItem_def dispatchEvent_def
      Let_def split: option.splits)

text \<open>
  C2. The claim asks for three independent deliveries. In the code they are consecutive
  statements of a single \<^verbatim>\<open>try\<close> block: with the channel open and \<^verbatim>\<open>postMessage\<close>
  throwing, nothing is written to \<^verbatim>\<open>localStorage\<close> and no event is dispatched, and with
  \<^verbatim>\<open>setItem\<close> throwing no event is dispatched, while independent deliveries would
  have made the remaining ones. The call itself returns normally, and with no channel at
  all the two other deliveries are made.
\<close>

theorem broadcastDatabaseChange_one_try_block:
  "(let env = samplePlatform (Some (Error ''DataCloneError'')) None None;
        b = freshBrowser (Some ''patient_data_channel'');
        (r, b') = broadcastDatabaseChange env ''INSERT INTO patients (full_name) VALUES ($1)'' None b;
        s = spec_broadcast env ''INSERT INTO patients (full_name) VALUES ($1)'' None b
    in r = Inr ()
       \<and> localStorage b' ''db_change_notification'' = None \<and> windowEvents b' = []
       \<and> localStorage s ''db_change_notification'' \<noteq> None \<and> length (windowEvents s) = 1)
   \<and> (let env = samplePlatform None (Some (Error ''QuotaExceededError'')) None;
        b = freshBrowser None;
        (r, b') = broadcastDatabaseChange env ''INSERT INTO patients (full_name) VALUES ($1)'' None b;
        s = spec_broadcast env ''INSERT INTO patients (full_name) VALUES ($1)'' None b
    in r = Inr () \<and> windowEvents b' = [] \<and> length (windowEvents s) = 1)
   \<and> (let env = samplePlatform None None None;
        b = freshBrowser None;
        (r, b') = broadcastDatabaseChange env ''INSERT INTO patients (full_name) VALUES ($1)'' None b
    in r = Inr () \<and> localStorage b' ''db_change_notification'' \<noteq> None
       \<and> length (windowEvents b') = 1)"
  by (simp add: broadcastDatabaseChange_def broadcastTry_def spec_broadcast_def
      deliverIndependently_def postMessage_def setItem_def dispatchEvent_def
      freshBrowser_def samplePlatform_def Let_def)

section \<open>Properties of the schema bootstrap\<close>

lemma initializePatientTable_result:
  "fst (initializePatientTable exec w out) =
     (if neverSettles (answers exec w patientTableStatements) then Pending
      else Fulfilled (rejection (answers exec w patientTableStatements) = None))"
  by (auto simp: initializePatientTable_def initializePatientTableTry_def
      patientTableStatements_def neverSettles_def rejection_def Let_def
      split: prod.splits promise.splits)

lemma initializePatientTable_console:
  "snd (snd (initializePatientTable exec w out)) =
     out @ [ConsoleLog ''Creating patients table if not exists...'']
         @ (if 2 \<le> length (filter isFulfilled (answers exec w patientTableStatements))
            then [ConsoleLog ''Patients table verified with columns:''] else [])
         @ (case rejection (answers exec w patientTableStatements) of
              Some e \<Rightarrow> [ConsoleError ''Error initializing patients table:'' e]
            | None \<Rightarrow> [])"
  by (auto simp: initializePatientTable_def initializePatientTableTry_def
      patientTableStatements_def neverSettles_def rejection_def Let_def isFulfilled_def
      split: prod.splits promise.splits)

lemma initializePatientTable_true:
  "fst (initializePatientTable exec w out) = Fulfilled True
     \<longleftrightarrow> (length (answers exec w patientTableStatements) = 3
          \<and> list_all isFulfilled (answers exec w patientTableStatements))"
  by (auto simp: initializePatientTable_def initializePatientTableTry_def
      patientTableStatements_def neverSettles_def rejection_def Let_def isFulfilled_def
      split: prod.splits promise.splits)

text \<open>
  C9. \<^verbatim>\<open>initializePatientTable\<close> never raises. When each awaited statement settles it
  returns a boolean: \<open>true\<close> exactly when the table creation, the verification read and
  the index creation are all fulfilled, and \<open>false\<close> as soon as one of them is rejected,
  after printing the cause with \<^verbatim>\<open>console.error\<close>. (A statement whose promise never
  settles leaves the function waiting; it does not raise either.)
\<close>

theorem initializePatientTable_never_raises:
  "(\<forall>e. fst (initializePatientTable exec w out) \<noteq> Rejected e)
   \<and> fst (initializePatientTable exec w out) =
       (if neverSettles (answers exec w patientTableStatements) then Pending
        else Fulfilled (rejection (answers exec w patientTableStatements) = None))
   \<and> (fst (initializePatientTable exec w out) = Fulfilled True
        \<longleftrightarrow> (length (answers exec w patientTableStatements) = 3
             \<and> list_all isFulfilled (answers exec w patientTableStatements)))
   \<and> snd (snd (initializePatientTable exec w out)) =
       out @ [ConsoleLog ''Creating patients table if not exists...'']
           @ (if 2 \<le> length (filter isFulfilled (answers exec w patientTableStatements))
              then [ConsoleLog ''Patients table verified with columns:''] else [])
           @ (case rejection (answers exec w patientTableStatements) of
                Some e \<Rightarrow> [ConsoleError ''Error initializing patients table:'' e]
              | None \<Rightarrow> [])"
proof -
  have "\<forall>e. fst (initializePatientTable exec w out) \<noteq> Rejected e"
    by (simp add: initializePatientTable_result)
  then show ?thesis
    using initializePatientTable_result [of exec w out]
      initializePatientTable_console [of exec w out]
      initializePatientTable_true [of exec w out]
    by blast
qed

theorem initializePatientTable_never_raises_witness:
  "initializePatientTable (rejecting [verifyPatientsTableSql]) () [] =
     (Fulfilled False, (),
      [ConsoleLog ''Creating patients table if not exists...'',
       ConsoleError ''Error initializing patients table:'' (Error ''relation does not exist'')])
   \<and> rejection (answers (rejecting [verifyPatientsTableSql]) () patientTableStatements)
       = Some (Error ''relation does not exist'')
   \<and> fst (initializePatientTable (rejecting []) () []) = Fulfilled True"
proof -
  have a: "answers (rejecting [verifyPatientsTableSql]) () patientTableStatements
           = [Fulfilled \<lparr>rows = Some []\<rparr>, Rejected (Error ''relation does not exist'')]"
    by (simp add: rejecting_def patientTableStatements_def createPatientsTableSql_def
        verifyPatientsTableSql_def createPatientsIndexSql_def)
  have b: "answers (rejecting []) () patientTableStatements
           = [Fulfilled \<lparr>rows = Some []\<rparr>, Fulfilled \<lparr>rows = Some []\<rparr>, Fulfilled \<lparr>rows = Some []\<rparr>]"
    by (simp add: rejecting_def patientTableStatements_def)
  have c: "initializePatientTable (rejecting [verifyPatientsTableSql]) () [] =
     (fst (initializePatientTable (rejecting [verifyPatientsTableSql]) () []), (),
      snd (snd (initializePatientTable (rejecting [verifyPatientsTableSql]) () [])))"
    by (cases "initializePatientTable (rejecting [verifyPatientsTableSql]) () []") simp
  show ?thesis
    using initializePatientTable_never_raises
            [of "rejecting [verifyPatientsTableSql]" "()" "[]"]
          initializePatientTable_never_raises [of "rejecting []" "()" "[]"]
    by (subst c) (simp add: a b neverSettles_def rejection_def isFulfilled_def)
qed

section \<open>Properties of the transaction queue\<close>

subsection \<open>Every step keeps the queue invariant\<close>

text \<open>
  First the two comparisons of the loop counter with the retry count, then how
  \<open>settle\<close>, \<open>remember\<close> and \<open>warn\<close> act on the fields of the state, then one lemma
  for each function of the module, then the event loop.
\<close>

lemma whole_first: "wholeCount r \<Longrightarrow> leNumber 1 r"
  by (cases r) (simp_all add: wholeCount_def)

lemma whole_next:
  assumes "wholeCount r" "ltNumber a r"
  shows "leNumber (Suc a) r"
proof (cases r)
  case (Finite q)
  with assms have w: "of_int \<lfloor>q\<rfloor> = q" and l: "of_nat a < q"
    by (simp_all add: wholeCount_def)
  from l have "int a < \<lfloor>q\<rfloor>" by (subst (asm) w[symmetric]) simp
  then have "int (Suc a) \<le> \<lfloor>q\<rfloor>" by simp
  then have "of_int (int (Suc a)) \<le> q" by (simp only: le_floor_iff)
  then show ?thesis using Finite by simp
qed (use assms in \<open>simp_all add: wholeCount_def\<close>)

lemma ltNumber_leNumber: "ltNumber a r \<Longrightarrow> leNumber a r"
  by (cases r) simp_all

lemma leNumber_first: "leNumber a r \<Longrightarrow> 1 \<le> a \<Longrightarrow> leNumber 1 r"
  by (cases r) (auto elim: order_trans[rotated])

lemma no_attempt: "\<not> leNumber 1 r \<Longrightarrow> attemptsAllowed r = 0"
proof (cases r)
  case (Finite q)
  assume "\<not> leNumber 1 r"
  with Finite have "q < 1" by simp
  then have "\<lfloor>q\<rfloor> < 1" by (simp add: floor_less_iff)
  then show ?thesis using Finite by (simp add: attemptsAllowed_def)
qed (simp_all add: attemptsAllowed_def)

lemma leNumber_bounded:
  assumes "boundedRetries r" "1 \<le> a"
  shows "leNumber a r = (a \<le> attemptsAllowed r)"
proof (cases r)
  case (Finite q)
  have "(of_nat a \<le> q) = (int a \<le> \<lfloor>q\<rfloor>)" by (simp add: le_floor_iff)
  also have "\<dots> = (a \<le> nat \<lfloor>q\<rfloor>)" using assms(2) by linarith
  finally show ?thesis using Finite by (simp add: attemptsAllowed_def)
qed (use assms in \<open>simp_all add: attemptsAllowed_def boundedRetries_def\<close>)

lemma ltNumber_bounded:
  assumes "boundedRetries r" "1 \<le> a"
  shows "ltNumber a r = (a < attemptsAllowed r \<or> (a = attemptsAllowed r \<and> \<not> wholeCount r))"
proof (cases r)
  case (Finite q)
  show ?thesis
  proof (cases "of_int \<lfloor>q\<rfloor> = q")
    case True
    have "(of_nat a < q) = (of_int (int a) < (of_int \<lfloor>q\<rfloor> :: rat))"
      by (subst True) simp
    also have "\<dots> = (int a < \<lfloor>q\<rfloor>)" by (simp only: of_int_less_iff)
    also have "\<dots> = (a < nat \<lfloor>q\<rfloor>)" using assms(2) by linarith
    finally have l: "(of_nat a < q) = (a < nat \<lfloor>q\<rfloor>)" .
    have "a = nat \<lfloor>q\<rfloor> \<Longrightarrow> 1 \<le> q"
    proof -
      assume "a = nat \<lfloor>q\<rfloor>"
      with assms(2) have "1 \<le> \<lfloor>q\<rfloor>" by linarith
      then show "1 \<le> q" by (simp add: le_floor_iff)
    qed
    with l True Finite show ?thesis by (auto simp: attemptsAllowed_def wholeCount_def)
  next
    case False
    have "(of_nat a < q) = (of_nat a \<le> q)"
    proof -
      have "of_nat a \<noteq> q" using False by (metis floor_of_nat of_int_of_nat_eq)
      then show ?thesis by auto
    qed
    also have "\<dots> = (int a \<le> \<lfloor>q\<rfloor>)" by (simp add: le_floor_iff)
    also have "\<dots> = (a \<le> nat \<lfloor>q\<rfloor>)" using assms(2) by linarith
    finally show ?thesis using False Finite
      by (auto simp: attemptsAllowed_def wholeCount_def)
  qed
qed (use assms in \<open>simp_all add: attemptsAllowed_def boundedRetries_def wholeCount_def\<close>)

lemma settle_fields [simp]:
  "isTransactionInProgress (settle i v s) = isTransactionInProgress s"
  "pendingTransactions (settle i v s) = pendingTransactions s"
  "transactions (settle i v s) = transactions s"
  "fastCalls (settle i v s) = fastCalls s"
  "timers (settle i v s) = timers s"
  "nextCall (settle i v s) = nextCall s"
  "history (settle i v s) = history s"
  "page (settle i v s) = page s"
  by (simp_all add: settle_def)

lemma settle_results:
  "results (settle i v s) j = (if j = i \<and> results s i = Pending then v else results s j)"
  by (simp add: settle_def)

lemma settle_keeps: "v \<noteq> Pending \<Longrightarrow> results s j \<noteq> Pending \<Longrightarrow> results (settle i v s) j \<noteq> Pending"
  by (simp add: settle_results)

lemma settle_settles: "v \<noteq> Pending \<Longrightarrow> results (settle i v s) i \<noteq> Pending"
  by (simp add: settle_results)

lemma remember_fields [simp]:
  "isTransactionInProgress (remember e s) = isTransactionInProgress s"
  "pendingTransactions (remember e s) = pendingTransactions s"
  "transactions (remember e s) = transactions s"
  "fastCalls (remember e s) = fastCalls s"
  "timers (remember e s) = timers s"
  "nextCall (remember e s) = nextCall s"
  "results (remember e s) = results s"
  "page (remember e s) = page s"
  "history (remember e s) = history s @ [e]"
  by (simp_all add: remember_def)

lemma warn_fields [simp]:
  "isTransactionInProgress (warn e s) = isTransactionInProgress s"
  "pendingTransactions (warn e s) = pendingTransactions s"
  "transactions (warn e s) = transactions s"
  "fastCalls (warn e s) = fastCalls s"
  "timers (warn e s) = timers s"
  "nextCall (warn e s) = nextCall s"
  "results (warn e s) = results s"
  "history (warn e s) = history s"
  by (simp_all add: warn_def)

lemma ops_settle [simp]:
  "submittedOps (settle i v s) = submittedOps s"
  "startedOps (settle i v s) = startedOps s"
  "releasedOps (settle i v s) = releasedOps s"
  "discardedOps (settle i v s) = discardedOps s"
  by (simp_all add: submittedOps_def startedOps_def releasedOps_def discardedOps_def)

lemma ops_warn [simp]:
  "submittedOps (warn e s) = submittedOps s"
  "startedOps (warn e s) = startedOps s"
  "releasedOps (warn e s) = releasedOps s"
  "discardedOps (warn e s) = discardedOps s"
  by (simp_all add: submittedOps_def startedOps_def releasedOps_def discardedOps_def)

lemma ops_remember [simp]:
  "submittedOps (remember e s) = submittedOps s @ enqueuedIn e"
  "startedOps (remember e s) = startedOps s @ startedIn e"
  "releasedOps (remember e s) = releasedOps s @ releasedIn e"
  "discardedOps (remember e s) = discardedOps s @ discardedIn e"
  by (simp_all add: submittedOps_def startedOps_def releasedOps_def discardedOps_def)

lemma ops_update [simp]:
  "submittedOps (s\<lparr>transactions := ts\<rparr>) = submittedOps s"
  "startedOps (s\<lparr>transactions := ts\<rparr>) = startedOps s"
  "releasedOps (s\<lparr>transactions := ts\<rparr>) = releasedOps s"
  "discardedOps (s\<lparr>transactions := ts\<rparr>) = discardedOps s"
  "submittedOps (s\<lparr>timers := tm\<rparr>) = submittedOps s"
  "startedOps (s\<lparr>timers := tm\<rparr>) = startedOps s"
  "releasedOps (s\<lparr>timers := tm\<rparr>) = releasedOps s"
  "discardedOps (s\<lparr>timers := tm\<rparr>) = discardedOps s"
  "submittedOps (s\<lparr>fastCalls := fc\<rparr>) = submittedOps s"
  "startedOps (s\<lparr>fastCalls := fc\<rparr>) = startedOps s"
  "releasedOps (s\<lparr>fastCalls := fc\<rparr>) = releasedOps s"
  "discardedOps (s\<lparr>fastCalls := fc\<rparr>) = discardedOps s"
  "submittedOps (s\<lparr>page := pg\<rparr>) = submittedOps s"
  "startedOps (s\<lparr>page := pg\<rparr>) = startedOps s"
  "releasedOps (s\<lparr>page := pg\<rparr>) = releasedOps s"
  "discardedOps (s\<lparr>page := pg\<rparr>) = discardedOps s"
  "submittedOps (s\<lparr>pendingTransactions := pt\<rparr>) = submittedOps s"
  "startedOps (s\<lparr>pendingTransactions := pt\<rparr>) = startedOps s"
  "releasedOps (s\<lparr>pendingTransactions := pt\<rparr>) = releasedOps s"
  "discardedOps (s\<lparr>pendingTransactions := pt\<rparr>) = discardedOps s"
  "submittedOps (s\<lparr>isTransactionInProgress := fl\<rparr>) = submittedOps s"
  "startedOps (s\<lparr>isTransactionInProgress := fl\<rparr>) = startedOps s"
  "releasedOps (s\<lparr>isTransactionInProgress := fl\<rparr>) = releasedOps s"
  "discardedOps (s\<lparr>isTransactionInProgress := fl\<rparr>) = discardedOps s"
  "submittedOps (s\<lparr>nextCall := n\<rparr>) = submittedOps s"
  "startedOps (s\<lparr>nextCall := n\<rparr>) = startedOps s"
  "releasedOps (s\<lparr>nextCall := n\<rparr>) = releasedOps s"
  "discardedOps (s\<lparr>nextCall := n\<rparr>) = discardedOps s"
  by (simp_all add: submittedOps_def startedOps_def releasedOps_def discardedOps_def)

lemma queuedLoop_fields [simp]:
  "isTransactionInProgress (snd (queuedLoop op a s)) = isTransactionInProgress s"
  "pendingTransactions (snd (queuedLoop op a s)) = pendingTransactions s"
  "transactions (snd (queuedLoop op a s)) = transactions s"
  "fastCalls (snd (queuedLoop op a s)) = fastCalls s"
  "timers (snd (queuedLoop op a s)) = timers s"
  "nextCall (snd (queuedLoop op a s)) = nextCall s"
  "results (snd (queuedLoop op a s)) = results s"
  "page (snd (queuedLoop op a s)) = page s"
  "submittedOps (snd (queuedLoop op a s)) = submittedOps s"
  "startedOps (snd (queuedLoop op a s)) = startedOps s"
  "releasedOps (snd (queuedLoop op a s)) = releasedOps s"
  "discardedOps (snd (queuedLoop op a s)) = discardedOps s"
  by (simp_all add: queuedLoop_def)

lemma queuedLoop_phase:
  "fst (queuedLoop op a s) = (if leNumber a (op_retries op) then AwaitQuery a else Returned)"
  by (simp add: queuedLoop_def)

lemma inv_order:
  "queueInvariant s \<Longrightarrow> subseq (startedOps s @ pendingTransactions s) (submittedOps s)"
  unfolding queueInvariant_def by blast

lemma inv_startTransaction:
  assumes "queueInvariant (s\<lparr>pendingTransactions := op # rest\<rparr>)" "\<not> isTransactionInProgress s"
  shows "queueInvariant (startTransaction op (s\<lparr>isTransactionInProgress := True, pendingTransactions := rest\<rparr>))"
  using assms
  by (auto simp: queueInvariant_def startTransaction_def queuedLoop_phase split_beta Let_def
      dest: whole_first)


lemma inv_processPendingTransactions:
  assumes "queueInvariant s"
  shows "queueInvariant (processPendingTransactions s)"
proof (cases "pendingTransactions s = [] \<or> isTransactionInProgress s")
  case True
  with assms show ?thesis by (simp add: processPendingTransactions_def)
next
  case False
  then obtain op rest where p: "pendingTransactions s = op # rest"
    by (cases "pendingTransactions s") auto
  then have "s\<lparr>pendingTransactions := op # rest\<rparr> = s" by simp
  with assms have "queueInvariant (s\<lparr>pendingTransactions := op # rest\<rparr>)" by simp
  moreover from False have "\<not> isTransactionInProgress s" by simp
  ultimately have "queueInvariant
      (startTransaction op (s\<lparr>isTransactionInProgress := True, pendingTransactions := rest\<rparr>))"
    by (rule inv_startTransaction)
  with False p show ?thesis by (simp add: processPendingTransactions_def)
qed

lemma inv_frame:
  assumes "queueInvariant s"
    and "isTransactionInProgress s' = isTransactionInProgress s"
    and "pendingTransactions s' = pendingTransactions s"
    and "transactions s' = transactions s"
    and "submittedOps s' = submittedOps s"
    and "startedOps s' = startedOps s"
    and "releasedOps s' = releasedOps s"
    and "discardedOps s' = discardedOps s"
    and "\<And>j. results s j \<noteq> Pending \<Longrightarrow> results s' j \<noteq> Pending"
  shows "queueInvariant s'"
  using assms unfolding queueInvariant_def by auto

lemma fastLoop_frame:
  "isTransactionInProgress (fastLoop op a le s) = isTransactionInProgress s"
  "pendingTransactions (fastLoop op a le s) = pendingTransactions s"
  "transactions (fastLoop op a le s) = transactions s"
  "timers (fastLoop op a le s) = timers s"
  "nextCall (fastLoop op a le s) = nextCall s"
  "submittedOps (fastLoop op a le s) = submittedOps s"
  "startedOps (fastLoop op a le s) = startedOps s"
  "releasedOps (fastLoop op a le s) = releasedOps s"
  "discardedOps (fastLoop op a le s) = discardedOps s"
  by (simp_all add: fastLoop_def Let_def)

lemma fastLoop_results:
  "results s j \<noteq> Pending \<Longrightarrow> results (fastLoop op a le s) j \<noteq> Pending"
  by (simp add: fastLoop_def Let_def settle_results)

lemma fastLoop_pending:
  "results (fastLoop op a le s) j = Pending \<Longrightarrow> results s j = Pending"
  using fastLoop_results by blast

lemma inv_fastLoop: "queueInvariant s \<Longrightarrow> queueInvariant (fastLoop op a le s)"
  by (erule inv_frame) (simp_all add: fastLoop_frame fastLoop_results)

lemma inv_fastAnswered: "queueInvariant s \<Longrightarrow> queueInvariant (fastAnswered t a answer s)"
proof (erule inv_frame)
qed (auto simp: fastAnswered_def Let_def fastLoop_frame settle_results
      dest!: fastLoop_pending split: sum.splits)

lemma inv_fastResumed:
  "queueInvariant s \<Longrightarrow> fastResumed i s = Some s' \<Longrightarrow> queueInvariant s'"
  by (auto simp: fastResumed_def split: option.splits phase.splits intro: inv_fastLoop)

lemma inv_enqueue:
  assumes "queueInvariant s"
  shows "queueInvariant (remember (Enqueued op)
           (s\<lparr>pendingTransactions := pendingTransactions s @ [op]\<rparr>))"
proof -
  have "subseq ((startedOps s @ pendingTransactions s) @ [op]) (submittedOps s @ [op])"
    using assms by (intro list_emb_append_mono) (simp_all add: inv_order)
  then show ?thesis using assms by (auto simp: queueInvariant_def)
qed

lemma inv_executeQuery: "queueInvariant s \<Longrightarrow> queueInvariant (executeQuery c g s)"
proof -
  assume inv: "queueInvariant s"
  let ?s0 = "s\<lparr>nextCall := Suc (nextCall s)\<rparr>"
  let ?op = "operationOf (nextCall s) c"
  have inv0: "queueInvariant ?s0"
    using inv by (rule inv_frame) simp_all
  show ?thesis
  proof (cases g)
    case (GuardFailed e)
    have "queueInvariant (settle (nextCall s)
        (Rejected (Error (''Failed to initialize database: '' @ message e))) ?s0)"
      using inv0 by (rule inv_frame) (simp_all add: settle_results)
    with GuardFailed show ?thesis by (simp add: executeQuery_def Let_def)
  next
    case GuardPassed
    show ?thesis
    proof (cases "c_skipQueue c \<and> \<not> isModifyingQuery (c_query c)")
      case True
      with GuardPassed inv0 show ?thesis
        by (simp add: executeQuery_def Let_def inv_fastLoop)
    next
      case False
      have "queueInvariant (remember (Enqueued ?op)
                (?s0\<lparr>pendingTransactions := pendingTransactions ?s0 @ [?op]\<rparr>))"
        using inv0 by (rule inv_enqueue)
      then have "queueInvariant (processPendingTransactions (remember (Enqueued ?op)
                (?s0\<lparr>pendingTransactions := pendingTransactions ?s0 @ [?op]\<rparr>)))"
        by (rule inv_processPendingTransactions)
      with GuardPassed False show ?thesis by (auto simp: executeQuery_def Let_def)
    qed
  qed
qed

lemma single_task:
  assumes "length ts \<le> 1" "taskOf i ts = Some t"
  shows "ts = [t] \<and> op_id (t_op t) = i"
  using assms by (cases ts) (auto simp: taskOf_def split: if_splits)

lemma inv_transactionSettled:
  assumes "queueInvariant s" "transactionSettled i s = Some s'"
  shows "queueInvariant s'"
proof -
  from assms(2) obtain t where t: "taskOf i (transactions s) = Some t" "t_phase t = Returned"
    and s': "s' = (remember (Released (t_op t)) s)
                       \<lparr>isTransactionInProgress := False,
                        timers := timers s @ [ProcessQueue],
                        transactions := removeTask i (transactions s)\<rparr>"
    by (auto simp: transactionSettled_def split: option.splits phase.splits)
  from assms(1) have "length (transactions s) \<le> 1" by (simp add: queueInvariant_def)
  with t(1) have ts: "transactions s = [t]" "op_id (t_op t) = i" using single_task by blast+
  show ?thesis
    using assms(1) t(2) unfolding s' queueInvariant_def
    by (auto simp: ts removeTask_def)
qed

lemma inv_queuedResumed:
  assumes "queueInvariant s" "queuedResumed i s = Some s'"
  shows "queueInvariant s'"
proof -
  from assms(2) obtain t a where t: "taskOf i (transactions s) = Some t" "t_phase t = Backoff a"
    and s': "s' = (snd (queuedLoop (t_op t) (Suc a) s))
                    \<lparr>transactions := replaceTask i (t\<lparr>t_phase := fst (queuedLoop (t_op t) (Suc a) s)\<rparr>)
                        (transactions (snd (queuedLoop (t_op t) (Suc a) s)))\<rparr>"
    by (auto simp: queuedResumed_def split_beta Let_def split: option.splits phase.splits)
  from assms(1) have "length (transactions s) \<le> 1" by (simp add: queueInvariant_def)
  with t(1) have ts: "transactions s = [t]" "op_id (t_op t) = i" using single_task by blast+
  show ?thesis
    using assms(1) t(2) unfolding s' queueInvariant_def
    by (auto simp: ts replaceTask_def queuedLoop_phase dest: whole_next)
qed

lemma inv_queuedAnswered:
  assumes "queueInvariant s" "taskOf i (transactions s) = Some t" "t_phase t = AwaitQuery a"
  shows "queueInvariant (queuedAnswered t a answer env s)"
proof -
  from assms(1) have "length (transactions s) \<le> 1" by (simp add: queueInvariant_def)
  with assms(2) have ts: "transactions s = [t]" "op_id (t_op t) = i" using single_task by blast+
  show ?thesis
  proof (cases answer)
    case (Inr result)
    then show ?thesis
      using assms(1,3) unfolding queueInvariant_def
      by (auto simp: queuedAnswered_def Let_def ts replaceTask_def settle_results)
  next
    case (Inl e)
    then show ?thesis
      using assms(1,3) unfolding queueInvariant_def
      by (auto simp: queuedAnswered_def Let_def ts replaceTask_def settle_results
          queuedLoop_phase split_beta)
  qed
qed

lemma inv_queryAnswered:
  assumes "queueInvariant s" "queryAnswered i answer env s = Some s'"
  shows "queueInvariant s'"
  using assms
  by (auto simp: queryAnswered_def split: option.splits phase.splits
      intro: inv_queuedAnswered inv_fastAnswered)

lemma inv_timerFired:
  assumes "queueInvariant s" "timerFired t s = Some s'"
  shows "queueInvariant s'"
proof -
  have inv1: "queueInvariant (s\<lparr>timers := remove1 t (timers s)\<rparr>)"
    using assms(1) by (rule inv_frame) simp_all
  from assms(2) show ?thesis
    using inv1
    by (auto simp: timerFired_def Let_def split: if_splits timer.splits
        intro: inv_processPendingTransactions inv_queuedResumed inv_fastResumed)
qed

lemma inv_cleanupDatabase_queue:
  assumes "queueInvariant s"
  shows "queueInvariant (cleanupDatabase_queue s)"
proof -
  have "subseq (startedOps s) (startedOps s @ pendingTransactions s)"
    by (rule subseq_rev_drop_many) simp
  from this inv_order[OF assms] have "subseq (startedOps s) (submittedOps s)"
    by (rule subseq_order.trans)
  with assms show ?thesis
    by (auto simp: queueInvariant_def cleanupDatabase_queue_def)
qed

lemma inv_step:
  assumes "queueInvariant s" "step e s = Some s'"
  shows "queueInvariant s'"
  using assms
  by (cases e)
     (auto intro: inv_executeQuery inv_queryAnswered inv_timerFired inv_transactionSettled
        inv_cleanupDatabase_queue)

lemma inv_run: "queueInvariant s \<Longrightarrow> run es s = Some s' \<Longrightarrow> queueInvariant s'"
proof (induction es arbitrary: s)
  case Nil
  then show ?case by simp
next
  case (Cons e es)
  then show ?case by (auto split: option.splits dest: inv_step)
qed

lemma inv_initial: "queueInvariant initialTab"
  by (simp add: queueInvariant_def initialTab_def submittedOps_def startedOps_def
      releasedOps_def discardedOps_def)

lemma inv_reachable: "reachable s \<Longrightarrow> queueInvariant s"
  unfolding reachable_def using inv_initial inv_run by blast


subsection \<open>The event loop empties the queue\<close>

text \<open>
  A closure running alone goes from an issued attempt to its return in a bounded number
  of steps (\<open>queued_body\<close>), is then released (\<open>queued_op\<close>), and the timer starts
  the next one, until the queue is empty (\<open>drain_queue\<close>, \<open>queue_drains\<close>).
\<close>

lemma drain_add:
  "nextEvent db env s = Some e \<Longrightarrow> step e s = Some s' \<Longrightarrow>
     drain (Suc n) db env s = drain n db env s'"
  by simp

lemma taskOf_single [simp]: "op_id (t_op t) = i \<Longrightarrow> taskOf i [t] = Some t"
  by (simp add: taskOf_def)

lemma replaceTask_single [simp]: "op_id (t_op t) = i \<Longrightarrow> replaceTask i t' [t] = [t']"
  by (simp add: replaceTask_def)

lemma removeTask_single [simp]: "op_id (t_op t) = i \<Longrightarrow> removeTask i [t] = []"
  by (simp add: removeTask_def)

lemma settle_Pending [simp]: "results (settle i Pending s) = results s"
  by (auto simp: settle_def)

text \<open>One queued closure running alone: from an issued attempt to the return.\<close>

lemma queued_last:
  assumes "transactions s = [t]" "t_phase t = AwaitQuery a" "timers s = []"
    and b: "boundedRetries (op_retries (t_op t))" and a: "1 \<le> a"
    and r: "attemptsAllowed (op_retries (t_op t)) = a"
  shows "\<exists>n s' t'. (\<forall>m. drain (n + m) db env s = drain m db env s')
      \<and> transactions s' = [t'] \<and> t_op t' = t_op t \<and> t_phase t' = Returned
      \<and> timers s' = []
      \<and> isTransactionInProgress s' = isTransactionInProgress s
      \<and> pendingTransactions s' = pendingTransactions s
      \<and> fastCalls s' = fastCalls s
      \<and> nextCall s' = nextCall s
      \<and> results s' = results (settle (op_id (t_op t))
                         (queuedFrom (db (op_id (t_op t))) (wholeCount (op_retries (t_op t))) a (Suc 0)) s)
      \<and> history s' = history s
            @ afterIssue Issued (op_id (t_op t)) (db (op_id (t_op t)))
                (wholeCount (op_retries (t_op t))) a (Suc 0)"
proof -
  let ?i = "op_id (t_op t)" let ?r = "op_retries (t_op t)"
  have le: "\<not> leNumber (Suc a) ?r"
    using leNumber_bounded[OF b, of "Suc a"] r by simp
  have lt: "ltNumber a ?r = (\<not> wholeCount ?r)"
    using ltNumber_bounded[OF b a] r by simp
  have ne: "nextEvent db env s = Some (QueryAnswered ?i (db ?i a) env)"
    using assms(1,2) by (simp add: nextEvent_def Let_def)
  let ?s1 = "queuedAnswered t a (db ?i a) env s"
  have st: "step (QueryAnswered ?i (db ?i a) env) s = Some ?s1"
    using assms(1,2) by (simp add: queryAnswered_def)
  have d1: "\<forall>m. drain (1 + m) db env s = drain m db env ?s1"
    using ne st by simp
  show ?thesis
  proof (cases "db ?i a")
    case (Inr res)
    show ?thesis
      apply (rule exI[of _ 1], rule exI[of _ ?s1])
      using d1 assms(1-3) Inr
      by (auto simp: queuedAnswered_def Let_def settle_def)
  next
    case (Inl e)
    show ?thesis
    proof (cases "wholeCount ?r")
      case True
      show ?thesis
        apply (rule exI[of _ 1], rule exI[of _ ?s1])
        using d1 assms(1-3) Inl True le lt
        by (simp add: queuedAnswered_def Let_def queuedLoop_def settle_def)
    next
      case False
      let ?t1 = "t\<lparr>t_phase := Backoff a, t_lastError := Some e\<rparr>"
      have s1: "transactions ?s1 = [?t1]"
        "timers ?s1 = [ResumeQueued ?i (backoffDelay a)]"
        "isTransactionInProgress ?s1 = isTransactionInProgress s"
        "pendingTransactions ?s1 = pendingTransactions s"
        "fastCalls ?s1 = fastCalls s"
        "nextCall ?s1 = nextCall s"
        "results ?s1 = results s"
        "history ?s1 = history s @ [Waited ?i (backoffDelay a)]"
        using assms(1-3) Inl False lt by (simp_all add: queuedAnswered_def Let_def)
      have ne1: "nextEvent db env ?s1 = Some (TimerFired (ResumeQueued ?i (backoffDelay a)))"
        using s1 by (simp add: nextEvent_def Let_def)
      let ?t2 = "?t1\<lparr>t_phase := Returned\<rparr>"
      let ?s2 = "?s1\<lparr>timers := [], transactions := [?t2]\<rparr>"
      have st1: "step (TimerFired (ResumeQueued ?i (backoffDelay a))) ?s1 = Some ?s2"
        using s1 le
        by (simp add: timerFired_def queuedResumed_def queuedLoop_def Let_def)
      have d2: "\<forall>m. drain (2 + m) db env s = drain m db env ?s2"
      proof
        fix m
        have "drain (2 + m) db env s = drain (Suc m) db env ?s1"
          using d1 by (metis add_2_eq_Suc plus_1_eq_Suc)
        also have "\<dots> = drain m db env ?s2" using ne1 st1 by simp
        finally show "drain (2 + m) db env s = drain m db env ?s2" .
      qed
      show ?thesis
        apply (rule exI[of _ 2], rule exI[of _ ?s2], rule exI[of _ ?t2])
        using d2 s1 Inl False
        by simp
    qed
  qed
qed

lemma queued_body:
  assumes "transactions s = [t]" "t_phase t = AwaitQuery a" "timers s = []"
    and "boundedRetries (op_retries (t_op t))" and "1 \<le> a"
    and "attemptsAllowed (op_retries (t_op t)) = a + k"
  shows "\<exists>n s' t'. (\<forall>m. drain (n + m) db env s = drain m db env s')
      \<and> transactions s' = [t'] \<and> t_op t' = t_op t \<and> t_phase t' = Returned
      \<and> timers s' = []
      \<and> isTransactionInProgress s' = isTransactionInProgress s
      \<and> pendingTransactions s' = pendingTransactions s
      \<and> fastCalls s' = fastCalls s
      \<and> nextCall s' = nextCall s
      \<and> results s' = results (settle (op_id (t_op t))
                         (queuedFrom (db (op_id (t_op t))) (wholeCount (op_retries (t_op t))) a (Suc k)) s)
      \<and> history s' = history s
            @ afterIssue Issued (op_id (t_op t)) (db (op_id (t_op t)))
                (wholeCount (op_retries (t_op t))) a (Suc k)"
  using assms
proof (induction k arbitrary: s t a)
  case 0
  then have "attemptsAllowed (op_retries (t_op t)) = a" by simp
  from queued_last[OF 0(1-5) this] show ?case .
next
  case (Suc k)
  let ?i = "op_id (t_op t)" let ?r = "op_retries (t_op t)"
  have le: "leNumber (Suc a) ?r"
    using leNumber_bounded[OF Suc.prems(4), of "Suc a"] Suc.prems(6) by simp
  have lt: "ltNumber a ?r"
    using ltNumber_bounded[OF Suc.prems(4,5)] Suc.prems(6) by simp
  have ne: "nextEvent db env s = Some (QueryAnswered ?i (db ?i a) env)"
    using Suc.prems by (simp add: nextEvent_def Let_def)
  have st: "step (QueryAnswered ?i (db ?i a) env) s = Some (queuedAnswered t a (db ?i a) env s)"
    using Suc.prems by (simp add: queryAnswered_def)
  let ?s1 = "queuedAnswered t a (db ?i a) env s"
  have d1: "\<forall>m. drain (1 + m) db env s = drain m db env ?s1"
    using ne st by simp
  show ?case
  proof (cases "db ?i a")
    case (Inr r)
    show ?thesis
      apply (rule exI[of _ 1], rule exI[of _ ?s1])
      using d1 Suc.prems(1-3) Inr
      by (auto simp: queuedAnswered_def Let_def settle_def)
  next
    case (Inl e)
    let ?t1 = "t\<lparr>t_phase := Backoff a, t_lastError := Some e\<rparr>"
    have s1: "transactions ?s1 = [?t1]"
      "timers ?s1 = [ResumeQueued ?i (backoffDelay a)]"
      "isTransactionInProgress ?s1 = isTransactionInProgress s"
      "pendingTransactions ?s1 = pendingTransactions s"
      "fastCalls ?s1 = fastCalls s"
      "nextCall ?s1 = nextCall s"
      "results ?s1 = results s"
      "history ?s1 = history s @ [Waited ?i (backoffDelay a)]"
      using Suc.prems(1-3) Inl lt by (simp_all add: queuedAnswered_def Let_def)
    have ne1: "nextEvent db env ?s1 = Some (TimerFired (ResumeQueued ?i (backoffDelay a)))"
      using s1 by (simp add: nextEvent_def Let_def)
    let ?t2 = "?t1\<lparr>t_phase := AwaitQuery (Suc a)\<rparr>"
    let ?s2 = "(remember (Issued ?i (Suc a)) (?s1\<lparr>timers := []\<rparr>))\<lparr>transactions := [?t2]\<rparr>"
    have st1: "step (TimerFired (ResumeQueued ?i (backoffDelay a))) ?s1 = Some ?s2"
      using s1 le
      by (simp add: timerFired_def queuedResumed_def queuedLoop_def Let_def)
    have d2: "\<forall>m. drain (2 + m) db env s = drain m db env ?s2"
    proof
      fix m
      have "drain (2 + m) db env s = drain (Suc m) db env ?s1"
        using d1 by (metis add_2_eq_Suc plus_1_eq_Suc)
      also have "\<dots> = drain m db env ?s2" using ne1 st1 by simp
      finally show "drain (2 + m) db env s = drain m db env ?s2" .
    qed
    have p2: "transactions ?s2 = [?t2]" "t_phase ?t2 = AwaitQuery (Suc a)" "timers ?s2 = []"
      "boundedRetries (op_retries (t_op ?t2))" "1 \<le> Suc a"
      "attemptsAllowed (op_retries (t_op ?t2)) = Suc a + k"
      using Suc.prems(4,6) by simp_all
    from Suc.IH[OF p2] obtain n s' t' where
      ih: "\<forall>m. drain (n + m) db env ?s2 = drain m db env s'"
        "transactions s' = [t']" "t_op t' = t_op ?t2" "t_phase t' = Returned"
        "timers s' = []"
        "isTransactionInProgress s' = isTransactionInProgress ?s2"
        "pendingTransactions s' = pendingTransactions ?s2"
        "fastCalls s' = fastCalls ?s2"
        "nextCall s' = nextCall ?s2"
        "results s' = results (settle (op_id (t_op ?t2))
                         (queuedFrom (db (op_id (t_op ?t2))) (wholeCount (op_retries (t_op ?t2)))
                            (Suc a) (Suc k)) ?s2)"
        "history s' = history ?s2
           @ afterIssue Issued (op_id (t_op ?t2)) (db (op_id (t_op ?t2)))
               (wholeCount (op_retries (t_op ?t2))) (Suc a) (Suc k)"
      by blast
    have d3: "\<forall>m. drain ((2 + n) + m) db env s = drain m db env s'"
    proof
      fix m
      have "drain ((2 + n) + m) db env s = drain (2 + (n + m)) db env s" by (simp add: add.assoc)
      also have "\<dots> = drain (n + m) db env ?s2" using d2 by blast
      also have "\<dots> = drain m db env s'" using ih(1) by blast
      finally show "drain ((2 + n) + m) db env s = drain m db env s'" .
    qed
    show ?thesis
      apply (rule exI[of _ "2 + n"], rule exI[of _ s'], rule exI[of _ t'])
      using d3 ih(2-) s1 Inl
      by (simp add: settle_def)
  qed
qed

lemma results_settle_apply:
  "results (settle (op_id op) (queuedOutcome (db (op_id op)) (op_retries op)) s)
     = applyOutcome db (results s) op"
  by (simp add: settle_def applyOutcome_def)

lemma queued_op:
  assumes "transactions s = [t]" "t_phase t = entryPhase (t_op t)" "timers s = []"
    and bd: "boundedRetries (op_retries (t_op t))"
  shows "\<exists>n s'. (\<forall>m. drain (n + m) db env s = drain m db env s')
      \<and> transactions s' = [] \<and> timers s' = [ProcessQueue]
      \<and> \<not> isTransactionInProgress s'
      \<and> pendingTransactions s' = pendingTransactions s
      \<and> fastCalls s' = fastCalls s
      \<and> nextCall s' = nextCall s
      \<and> results s' = applyOutcome db (results s) (t_op t)
      \<and> history s' = history s @ opTail db (t_op t)"
proof -
  let ?op = "t_op t" let ?i = "op_id (t_op t)" let ?r = "op_retries (t_op t)"
  have body: "\<exists>n s1 t1. (\<forall>m. drain (n + m) db env s = drain m db env s1)
      \<and> transactions s1 = [t1] \<and> t_op t1 = ?op \<and> t_phase t1 = Returned
      \<and> timers s1 = []
      \<and> pendingTransactions s1 = pendingTransactions s
      \<and> fastCalls s1 = fastCalls s
      \<and> nextCall s1 = nextCall s
      \<and> results s1 = applyOutcome db (results s) ?op
      \<and> history s1 = history s
            @ afterIssue Issued ?i (db ?i) (wholeCount ?r) 1 (attemptsAllowed ?r)"
  proof (cases "leNumber 1 ?r")
    case True
    then have "1 \<le> attemptsAllowed ?r" using leNumber_bounded[OF bd, of 1] by simp
    then obtain k where k: "attemptsAllowed ?r = Suc k" by (cases "attemptsAllowed ?r") auto
    then have r: "attemptsAllowed ?r = 1 + k" by simp
    from assms(2) True have ph: "t_phase t = AwaitQuery 1" by (simp add: entryPhase_def)
    have one: "(1::nat) \<le> 1" by simp
    from queued_body[OF assms(1) ph assms(3) bd one r, of db env]
    show ?thesis
      unfolding results_settle_apply[symmetric] queuedOutcome_def k by blast
  next
    case False
    then have z: "attemptsAllowed ?r = 0" using leNumber_bounded[OF bd, of 1] by simp
    from assms(2) False have ph: "t_phase t = Returned" by (simp add: entryPhase_def)
    have "applyOutcome db (results s) ?op = results s"
      by (auto simp: applyOutcome_def queuedOutcome_def z)
    with assms(1-3) ph z show ?thesis
      by (intro exI[of _ 0] exI[of _ s] exI[of _ t]) simp
  qed
  then obtain n s1 t1 where b: "\<forall>m. drain (n + m) db env s = drain m db env s1"
      "transactions s1 = [t1]" "t_op t1 = ?op" "t_phase t1 = Returned"
      "timers s1 = []"
      "pendingTransactions s1 = pendingTransactions s"
      "fastCalls s1 = fastCalls s"
      "nextCall s1 = nextCall s"
      "results s1 = applyOutcome db (results s) ?op"
      "history s1 = history s
         @ afterIssue Issued ?i (db ?i) (wholeCount ?r) 1 (attemptsAllowed ?r)"
    by blast
  have ne: "nextEvent db env s1 = Some (TransactionSettled ?i)"
    using b by (simp add: nextEvent_def Let_def)
  let ?s2 = "(remember (Released ?op) s1)
                       \<lparr>isTransactionInProgress := False,
                        timers := [ProcessQueue],
                        transactions := []\<rparr>"
  have st: "step (TransactionSettled ?i) s1 = Some ?s2"
    using b by (simp add: transactionSettled_def)
  have d: "\<forall>m. drain (Suc n + m) db env s = drain m db env ?s2"
  proof
    fix m
    have e: "Suc n + m = n + Suc m" by simp
    have "drain (Suc n + m) db env s = drain (n + Suc m) db env s"
      by (simp only: e)
    also have "\<dots> = drain (Suc m) db env s1" using b(1) by blast
    also have "\<dots> = drain m db env ?s2" using ne st by simp
    finally show "drain (Suc n + m) db env s = drain m db env ?s2" .
  qed
  have "transactions ?s2 = []" "timers ?s2 = [ProcessQueue]"
      "\<not> isTransactionInProgress ?s2"
      "pendingTransactions ?s2 = pendingTransactions s"
      "fastCalls ?s2 = fastCalls s"
      "nextCall ?s2 = nextCall s"
      "results ?s2 = applyOutcome db (results s) (t_op t)"
      "history ?s2 = history s @ opTail db (t_op t)"
    using b by (simp_all add: opTail_def)
  with d show ?thesis by blast
qed

lemma startTransaction_fields:
  "transactions (startTransaction op s) =
     transactions s @ [\<lparr>t_op = op, t_phase = entryPhase op, t_lastError = None\<rparr>]"
  "timers (startTransaction op s) = timers s"
  "isTransactionInProgress (startTransaction op s) = isTransactionInProgress s"
  "pendingTransactions (startTransaction op s) = pendingTransactions s"
  "fastCalls (startTransaction op s) = fastCalls s"
  "nextCall (startTransaction op s) = nextCall s"
  "results (startTransaction op s) = results s"
  "history (startTransaction op s) =
     history s @ Started op # (if leNumber 1 (op_retries op) then [Issued (op_id op) 1] else [])"
  by (simp_all add: startTransaction_def queuedLoop_def entryPhase_def Let_def)

lemma opHistory_eq:
  "opHistory db op =
     Started op # (if leNumber 1 (op_retries op) then [Issued (op_id op) 1] else [])
       @ opTail db op"
  by (simp add: opHistory_def opTail_def attemptsTrace_def no_attempt)

lemma drain_quiescent: "quiescent s \<Longrightarrow> drain m db env s = s"
  by (cases m) (simp_all add: quiescent_def nextEvent_def)

lemma drain_queue:
  assumes "transactions s = [t]" "t_phase t = entryPhase (t_op t)" "timers s = []"
    "fastCalls s = []" "pendingTransactions s = rest"
    "boundedRetries (op_retries (t_op t))" "\<forall>op \<in> set rest. boundedRetries (op_retries op)"
  shows "\<exists>n s'. (\<forall>m. drain (n + m) db env s = s')
      \<and> quiescent s'
      \<and> nextCall s' = nextCall s
      \<and> results s' = foldl (applyOutcome db) (results s) (t_op t # rest)
      \<and> history s' = history s @ opTail db (t_op t) @ concat (map (opHistory db) rest)"
  using assms
proof (induction rest arbitrary: s t)
  case Nil
  from queued_op[OF Nil(1-3,6), of db env] obtain n s1 where
    a: "\<forall>m. drain (n + m) db env s = drain m db env s1"
      "transactions s1 = []" "timers s1 = [ProcessQueue]"
      "\<not> isTransactionInProgress s1"
      "pendingTransactions s1 = pendingTransactions s"
      "fastCalls s1 = fastCalls s"
      "nextCall s1 = nextCall s"
      "results s1 = applyOutcome db (results s) (t_op t)"
      "history s1 = history s @ opTail db (t_op t)"
    by blast
  have ne: "nextEvent db env s1 = Some (TimerFired ProcessQueue)"
    using a Nil by (simp add: nextEvent_def)
  let ?s2 = "s1\<lparr>timers := []\<rparr>"
  have st: "step (TimerFired ProcessQueue) s1 = Some ?s2"
    using a Nil by (simp add: timerFired_def processPendingTransactions_def)
  have q: "quiescent ?s2" using a Nil by (simp add: quiescent_def)
  have d: "\<forall>m. drain (Suc n + m) db env s = ?s2"
  proof
    fix m
    have e: "Suc n + m = n + Suc m" by simp
    have "drain (Suc n + m) db env s = drain (n + Suc m) db env s"
      by (simp only: e)
    also have "\<dots> = drain (Suc m) db env s1" using a(1) by blast
    also have "\<dots> = drain m db env ?s2" using ne st by simp
    also have "\<dots> = ?s2" using q by (rule drain_quiescent)
    finally show "drain (Suc n + m) db env s = ?s2" .
  qed
  have "nextCall ?s2 = nextCall s"
    "results ?s2 = foldl (applyOutcome db) (results s) (t_op t # [])"
    "history ?s2 = history s @ opTail db (t_op t) @ concat (map (opHistory db) [])"
    using a by simp_all
  with d q show ?case by blast
next
  case (Cons op rest)
  from queued_op[OF Cons.prems(1-3,6), of db env] obtain n s1 where
    a: "\<forall>m. drain (n + m) db env s = drain m db env s1"
      "transactions s1 = []" "timers s1 = [ProcessQueue]"
      "\<not> isTransactionInProgress s1"
      "pendingTransactions s1 = pendingTransactions s"
      "fastCalls s1 = fastCalls s"
      "nextCall s1 = nextCall s"
      "results s1 = applyOutcome db (results s) (t_op t)"
      "history s1 = history s @ opTail db (t_op t)"
    by blast
  have ne: "nextEvent db env s1 = Some (TimerFired ProcessQueue)"
    using a Cons.prems by (simp add: nextEvent_def)
  let ?s2 = "startTransaction op
               (s1\<lparr>timers := [], isTransactionInProgress := True, pendingTransactions := rest\<rparr>)"
  let ?t2 = "\<lparr>t_op = op, t_phase = entryPhase op, t_lastError = None\<rparr>"
  have st: "step (TimerFired ProcessQueue) s1 = Some ?s2"
    using a Cons.prems by (simp add: timerFired_def processPendingTransactions_def)
  have p2: "transactions ?s2 = [?t2]" "t_phase ?t2 = entryPhase (t_op ?t2)" "timers ?s2 = []"
    "fastCalls ?s2 = []" "pendingTransactions ?s2 = rest"
    "boundedRetries (op_retries (t_op ?t2))" "\<forall>op \<in> set rest. boundedRetries (op_retries op)"
    using a Cons.prems by (simp_all add: startTransaction_fields)
  from Cons.IH[OF p2] obtain n2 s' where
    ih: "\<forall>m. drain (n2 + m) db env ?s2 = s'" "quiescent s'"
      "nextCall s' = nextCall ?s2"
      "results s' = foldl (applyOutcome db) (results ?s2) (t_op ?t2 # rest)"
      "history s' = history ?s2 @ opTail db (t_op ?t2) @ concat (map (opHistory db) rest)"
    by blast
  have d: "\<forall>m. drain (Suc n + n2 + m) db env s = s'"
  proof
    fix m
    have e: "Suc n + n2 + m = n + Suc (n2 + m)" by simp
    have "drain (Suc n + n2 + m) db env s = drain (n + Suc (n2 + m)) db env s"
      by (simp only: e)
    also have "\<dots> = drain (Suc (n2 + m)) db env s1" using a(1) by blast
    also have "\<dots> = drain (n2 + m) db env ?s2" using ne st by simp
    also have "\<dots> = s'" using ih(1) by blast
    finally show "drain (Suc n + n2 + m) db env s = s'" .
  qed
  have r: "results s' = foldl (applyOutcome db) (results s) (t_op t # op # rest)"
    using ih(4) a(8) by (simp add: startTransaction_fields)
  have h: "history s' = history s @ opTail db (t_op t) @ concat (map (opHistory db) (op # rest))"
    using ih(5) a(9) by (simp add: startTransaction_fields opHistory_eq[of db op])
  have c: "nextCall s' = nextCall s"
    using ih(3) a(7) by (simp add: startTransaction_fields)
  from d ih(2) c r h show ?case by blast
qed


lemma run_append:
  "run (es @ es') s = (case run es s of None \<Rightarrow> None | Some s' \<Rightarrow> run es' s')"
  by (induction es arbitrary: s) (auto split: option.splits)

lemma operationsOf_Nil [simp]: "operationsOf n [] = []"
  by (simp add: operationsOf_def)

lemma operationsOf_snoc:
  "operationsOf n (cs @ [c]) = operationsOf n cs @ [operationOf (n + length cs) c]"
  by (simp add: operationsOf_def)

lemma operationsOf_Cons:
  "operationsOf n (c # cs) = operationOf n c # operationsOf (Suc n) cs"
proof -
  have "[n..<n + length (c # cs)] = n # [Suc n..<Suc n + length cs]"
    by (simp add: upt_conv_Cons del: upt_Suc)
  then show ?thesis unfolding operationsOf_def by simp
qed

lemma length_operationsOf [simp]: "length (operationsOf n cs) = length cs"
  by (simp add: operationsOf_def)

lemma operationOf_fields [simp]:
  "op_id (operationOf i c) = i"
  "op_query (operationOf i c) = c_query c"
  "op_retries (operationOf i c) = (case c_retries c of Some r \<Rightarrow> r | None \<Rightarrow> Finite 3)"
  "op_broadcastTable (operationOf i c) = c_broadcastTable c"
  by (simp_all add: operationOf_def)

lemma ids_operationsOf: "map op_id (operationsOf n cs) = [n..<n + length cs]"
  by (rule nth_equalityI) (simp_all add: operationsOf_def)

lemma executeQuery_queued:
  "queuedCall c \<Longrightarrow>
     executeQuery c GuardPassed s =
       processPendingTransactions
         (remember (Enqueued (operationOf (nextCall s) c))
            (s\<lparr>nextCall := Suc (nextCall s),
               pendingTransactions := pendingTransactions s @ [operationOf (nextCall s) c]\<rparr>))"
  by (auto simp: queuedCall_def executeQuery_def Let_def)

lemma bounded_operationOf:
  "boundedCall c \<Longrightarrow> boundedRetries (op_retries (operationOf i c))"
  by (auto simp: boundedCall_def boundedRetries_def split: option.splits)

lemma bounded_operationsOf:
  "\<forall>c \<in> set cs. boundedCall c \<Longrightarrow> \<forall>op \<in> set (operationsOf n cs). boundedRetries (op_retries op)"
  by (auto simp: operationsOf_def boundedCall_def boundedRetries_def operationOf_def
      dest!: set_zip_rightD split: option.splits)

lemma nth_operationsOf:
  "k < length cs \<Longrightarrow> operationsOf n cs ! k = operationOf (n + k) (cs ! k)"
  by (simp add: operationsOf_def)

lemma submit_state:
  assumes "\<forall>c \<in> set (c0 # cs). queuedCall c"
  shows "\<exists>s. run (submit (c0 # cs)) initialTab = Some s
      \<and> transactions s = [\<lparr>t_op = operationOf 0 c0, t_phase = entryPhase (operationOf 0 c0),
                              t_lastError = None\<rparr>]
      \<and> timers s = [] \<and> fastCalls s = []
      \<and> pendingTransactions s = operationsOf 1 cs
      \<and> nextCall s = Suc (length cs)
      \<and> results s = (\<lambda>i. Pending)
      \<and> history s = Enqueued (operationOf 0 c0) # Started (operationOf 0 c0)
            # (if leNumber 1 (op_retries (operationOf 0 c0)) then [Issued 0 1] else [])
            @ map Enqueued (operationsOf 1 cs)"
  using assms
proof (induction cs rule: rev_induct)
  case Nil
  then have q: "queuedCall c0" by simp
  show ?case
    by (simp add: submit_def executeQuery_queued[OF q] initialTab_def
        processPendingTransactions_def startTransaction_fields)
next
  case (snoc c cs)
  then have "\<forall>c \<in> set (c0 # cs). queuedCall c" by simp
  from snoc.IH[OF this] obtain s where
    s: "run (submit (c0 # cs)) initialTab = Some s"
      "transactions s = [\<lparr>t_op = operationOf 0 c0, t_phase = entryPhase (operationOf 0 c0),
                              t_lastError = None\<rparr>]"
      "timers s = []" "fastCalls s = []"
      "pendingTransactions s = operationsOf 1 cs"
      "nextCall s = Suc (length cs)"
      "results s = (\<lambda>i. Pending)"
      "history s = Enqueued (operationOf 0 c0) # Started (operationOf 0 c0)
            # (if leNumber 1 (op_retries (operationOf 0 c0)) then [Issued 0 1] else [])
            @ map Enqueued (operationsOf 1 cs)"
    by blast
  have inv: "queueInvariant s"
    using s(1) inv_run[OF inv_initial] by blast
  then have fl: "isTransactionInProgress s" using s(2) by (simp add: queueInvariant_def)
  from snoc.prems have q: "queuedCall c" by simp
  let ?op = "operationOf (Suc (length cs)) c"
  let ?s' = "remember (Enqueued ?op)
               (s\<lparr>nextCall := Suc (Suc (length cs)),
                  pendingTransactions := operationsOf 1 cs @ [?op]\<rparr>)"
  have e: "executeQuery c GuardPassed s = ?s'"
    using s fl by (simp add: executeQuery_queued[OF q] processPendingTransactions_def)
  have r: "run (submit (c0 # cs @ [c])) initialTab = Some ?s'"
  proof -
    have "submit (c0 # cs @ [c]) = submit (c0 # cs) @ [Call c GuardPassed]"
      by (simp add: submit_def)
    then show ?thesis using s(1) e by (simp add: run_append)
  qed
  show ?case
    apply (rule exI[of _ ?s'])
    using r s(2-) by (simp add: operationsOf_snoc)
qed

lemma afterIssue_enqueued [simp]:
  "concat (map enqueuedIn (afterIssue Issued i ans w a k)) = []"
  by (induction k arbitrary: a) (auto split: sum.splits)

lemma afterIssue_started [simp]:
  "concat (map startedIn (afterIssue Issued i ans w a k)) = []"
  by (induction k arbitrary: a) (auto split: sum.splits)

lemma afterIssue_released [simp]:
  "concat (map releasedIn (afterIssue Issued i ans w a k)) = []"
  by (induction k arbitrary: a) (auto split: sum.splits)

lemma opHistory_projections [simp]:
  "concat (map enqueuedIn (opHistory db op)) = []"
  "concat (map startedIn (opHistory db op)) = [op]"
  "concat (map releasedIn (opHistory db op)) = [op]"
  "concat (map enqueuedIn (opTail db op)) = []"
  "concat (map startedIn (opTail db op)) = []"
  "concat (map releasedIn (opTail db op)) = [op]"
  by (simp_all add: opHistory_def opTail_def attemptsTrace_def del: concat_eq_Nil_conv)

lemma queue_enqueued [simp]:
  "concat (map enqueuedIn (concat (map (opHistory db) ops))) = []"
  by (induction ops) simp_all

lemma queue_started [simp]:
  "concat (map startedIn (concat (map (opHistory db) ops))) = ops"
  by (induction ops) simp_all

lemma queue_released [simp]:
  "concat (map releasedIn (concat (map (opHistory db) ops))) = ops"
  by (induction ops) simp_all

lemma Enqueued_enqueued [simp]: "concat (map enqueuedIn (map Enqueued ops)) = ops"
  by (induction ops) simp_all

lemma Enqueued_started [simp]: "concat (map startedIn (map Enqueued ops)) = []"
  by (induction ops) simp_all

lemma Enqueued_released [simp]: "concat (map releasedIn (map Enqueued ops)) = []"
  by (induction ops) simp_all

lemma afterIssue_concerns:
  "filter (concerns j) (afterIssue Issued i ans w a k) =
     (if i = j then afterIssue Issued i ans w a k else [])"
  by (induction k arbitrary: a) (auto split: sum.splits)

lemma opHistory_concerns:
  "filter (concerns j) (opHistory db op) =
     (if op_id op = j then attemptsTrace Issued j (db j) (op_retries op) else [])"
  by (auto simp: opHistory_def attemptsTrace_def afterIssue_concerns)

lemma opTail_concerns:
  "filter (concerns j) (opTail db op) =
     (if op_id op = j
      then afterIssue Issued j (db j) (wholeCount (op_retries op)) 1 (attemptsAllowed (op_retries op))
      else [])"
  by (auto simp: opTail_def afterIssue_concerns)

lemma Enqueued_concerns [simp]: "filter (concerns j) (map Enqueued ops) = []"
  by (induction ops) simp_all

lemma queue_concerns_none:
  "j \<notin> op_id ` set ops \<Longrightarrow> filter (concerns j) (concat (map (opHistory db) ops)) = []"
  by (induction ops) (auto simp: opHistory_concerns)

lemma queue_concerns:
  assumes "distinct (map op_id ops)" "op \<in> set ops"
  shows "filter (concerns (op_id op)) (concat (map (opHistory db) ops)) =
         attemptsTrace Issued (op_id op) (db (op_id op)) (op_retries op)"
  using assms
proof (induction ops)
  case Nil
  then show ?case by simp
next
  case (Cons x ops)
  show ?case
  proof (cases "op = x")
    case True
    with Cons.prems have "op_id x \<notin> op_id ` set ops" by auto
    then show ?thesis using True by (simp add: opHistory_concerns queue_concerns_none)
  next
    case False
    with Cons.prems have in_ops: "op \<in> set ops" by simp
    with Cons.prems have "op_id x \<noteq> op_id op" by auto
    then show ?thesis using Cons.IH in_ops Cons.prems(1) by (simp add: opHistory_concerns)
  qed
qed

lemma foldl_applyOutcome_other:
  "i \<notin> op_id ` set ops \<Longrightarrow> foldl (applyOutcome db) res ops i = res i"
  by (induction ops arbitrary: res) (auto simp: applyOutcome_def)

lemma foldl_applyOutcome:
  assumes "distinct (map op_id ops)" "op \<in> set ops" "res (op_id op) = Pending"
  shows "foldl (applyOutcome db) res ops (op_id op)
         = queuedOutcome (db (op_id op)) (op_retries op)"
  using assms
proof (induction ops arbitrary: res)
  case Nil
  then show ?case by simp
next
  case (Cons x ops)
  show ?case
  proof (cases "op = x")
    case True
    with Cons.prems have "op_id x \<notin> op_id ` set ops" by auto
    then have "foldl (applyOutcome db) (applyOutcome db res x) ops (op_id x)
               = applyOutcome db res x (op_id x)"
      by (rule foldl_applyOutcome_other)
    also have "\<dots> = queuedOutcome (db (op_id x)) (op_retries x)"
      using True Cons.prems(3) by (simp add: applyOutcome_def)
    finally show ?thesis using True by simp
  next
    case False
    with Cons.prems have in_ops: "op \<in> set ops" by simp
    with Cons.prems have ne: "op_id x \<noteq> op_id op" by auto
    have "applyOutcome db res x (op_id op) = Pending"
      using ne Cons.prems(3) by (simp add: applyOutcome_def)
    then show ?thesis using Cons.IH[OF _ in_ops] Cons.prems(1) by simp
  qed
qed


lemma Enqueued_comp [simp]:
  "concat (map (enqueuedIn \<circ> Enqueued) ops) = ops"
  "concat (map (startedIn \<circ> Enqueued) ops) = []"
  "concat (map (releasedIn \<circ> Enqueued) ops) = []"
  by (induction ops) simp_all

lemma queue_drains:
  assumes "\<forall>c \<in> set cs. queuedCall c" "\<forall>c \<in> set cs. boundedCall c"
  shows "\<exists>n s0 s'. run (submit cs) initialTab = Some s0
      \<and> (\<forall>m. drain (n + m) db env s0 = s')
      \<and> quiescent s'
      \<and> nextCall s' = length cs
      \<and> submittedOps s' = operationsOf 0 cs
      \<and> startedOps s' = operationsOf 0 cs
      \<and> releasedOps s' = operationsOf 0 cs
      \<and> (\<forall>k<length cs.
            results s' k = queuedOutcome (db k) (op_retries (operationOf k (cs ! k)))
            \<and> attemptsOf k s' = attemptsTrace Issued k (db k) (op_retries (operationOf k (cs ! k))))"
proof (cases cs)
  case Nil
  have "quiescent initialTab" by (simp add: quiescent_def initialTab_def)
  then have "\<forall>m. drain (0 + m) db env initialTab = initialTab"
    by (simp add: drain_quiescent)
  moreover have "run (submit cs) initialTab = Some initialTab"
    using Nil by (simp add: submit_def)
  moreover have "submittedOps initialTab = []" "startedOps initialTab = []"
    "releasedOps initialTab = []" "nextCall initialTab = 0"
    by (simp_all add: submittedOps_def startedOps_def releasedOps_def initialTab_def)
  ultimately show ?thesis
    using Nil \<open>quiescent initialTab\<close> by (intro exI[of _ 0] exI[of _ initialTab]) simp
next
  case (Cons c0 cs')
  let ?op0 = "operationOf 0 c0"
  let ?rest = "operationsOf 1 cs'"
  let ?t = "\<lparr>t_op = ?op0, t_phase = entryPhase ?op0, t_lastError = None\<rparr>"
  let ?H0 = "Enqueued ?op0 # Started ?op0
            # (if leNumber 1 (op_retries ?op0) then [Issued 0 1] else [])
            @ map Enqueued ?rest"
  have ops: "operationsOf 0 cs = ?op0 # ?rest"
    using Cons by (simp add: operationsOf_Cons)
  from assms(2) Cons have b0: "boundedRetries (op_retries (t_op ?t))"
    by (simp add: bounded_operationOf del: operationOf_fields)
  from assms(2) Cons have brest: "\<forall>op \<in> set ?rest. boundedRetries (op_retries op)"
    by (intro bounded_operationsOf) simp
  from assms(1) Cons have "\<forall>c \<in> set (c0 # cs'). queuedCall c" by simp
  from submit_state[OF this] obtain s0 where
    s0: "run (submit (c0 # cs')) initialTab = Some s0"
      "transactions s0 = [?t]" "timers s0 = []" "fastCalls s0 = []"
      "pendingTransactions s0 = ?rest"
      "nextCall s0 = Suc (length cs')"
      "results s0 = (\<lambda>i. Pending)"
      "history s0 = ?H0"
    by blast
  have ph: "t_phase ?t = entryPhase (t_op ?t)" by simp
  from drain_queue[OF s0(2) ph s0(3) s0(4) s0(5) b0 brest, of db env] obtain n s' where
    s': "\<forall>m. drain (n + m) db env s0 = s'" "quiescent s'"
      "nextCall s' = nextCall s0"
      "results s' = foldl (applyOutcome db) (results s0) (t_op ?t # ?rest)"
      "history s' = history s0 @ opTail db (t_op ?t) @ concat (map (opHistory db) ?rest)"
    by blast
  have h: "history s' = ?H0 @ opTail db ?op0 @ concat (map (opHistory db) ?rest)"
    using s'(5) s0(8) by simp
  have sub: "submittedOps s' = operationsOf 0 cs"
    unfolding submittedOps_def h ops by (simp del: concat_eq_Nil_conv)
  have sta: "startedOps s' = operationsOf 0 cs"
    unfolding startedOps_def h ops by (simp del: concat_eq_Nil_conv)
  have rel: "releasedOps s' = operationsOf 0 cs"
    unfolding releasedOps_def h ops by (simp del: concat_eq_Nil_conv)
  have dist: "distinct (map op_id (operationsOf 0 cs))"
    by (simp add: ids_operationsOf)
  have att: "attemptsOf k s' = filter (concerns k) (concat (map (opHistory db) (operationsOf 0 cs)))"
    for k
    unfolding attemptsOf_def h ops by (simp add: opHistory_eq)
  have res: "results s' = foldl (applyOutcome db) (\<lambda>i. Pending) (operationsOf 0 cs)"
    using s'(4) s0(7) ops by simp
  have per: "\<forall>k<length cs.
            results s' k = queuedOutcome (db k) (op_retries (operationOf k (cs ! k)))
            \<and> attemptsOf k s' = attemptsTrace Issued k (db k) (op_retries (operationOf k (cs ! k)))"
  proof (intro allI impI)
    fix k assume k: "k < length cs"
    let ?op = "operationOf k (cs ! k)"
    have nth: "operationsOf 0 cs ! k = ?op" using k by (simp add: nth_operationsOf)
    then have mem: "?op \<in> set (operationsOf 0 cs)"
      using k by (metis length_operationsOf nth_mem)
    have id: "op_id ?op = k" by simp
    have "results s' (op_id ?op) = queuedOutcome (db (op_id ?op)) (op_retries ?op)"
      unfolding res by (rule foldl_applyOutcome[OF dist mem]) simp
    moreover have "attemptsOf (op_id ?op) s'
          = attemptsTrace Issued (op_id ?op) (db (op_id ?op)) (op_retries ?op)"
      unfolding att by (rule queue_concerns[OF dist mem])
    ultimately show "results s' k = queuedOutcome (db k) (op_retries ?op)
            \<and> attemptsOf k s' = attemptsTrace Issued k (db k) (op_retries ?op)"
      unfolding id by simp
  qed
  have nc: "nextCall s' = length cs" using s'(3) s0(6) Cons by simp
  from s0(1) Cons have r: "run (submit cs) initialTab = Some s0" by simp
  from r s'(1,2) nc sub sta rel per show ?thesis by blast
qed

lemma queuedFrom_failing:
  assumes "\<forall>b. a \<le> b \<and> b \<le> a + k \<longrightarrow> ans b = Inl (err b)"
  shows "queuedFrom ans True a (Suc k) = Rejected (err (a + k))"
  using assms
proof (induction k arbitrary: a)
  case 0
  then show ?case by simp
next
  case (Suc k)
  have "ans a = Inl (err a)" using Suc.prems by simp
  moreover have "queuedFrom ans True (Suc a) (Suc k) = Rejected (err (Suc a + k))"
    by (rule Suc.IH) (use Suc.prems in auto)
  ultimately show ?case by simp
qed

lemma fastFrom_failing:
  assumes "\<forall>b. a \<le> b \<and> b \<le> a + k \<longrightarrow> ans b = Inl (err b)"
  shows "fastFrom ans le a (Suc k) = Rejected (err (a + k))"
  using assms
proof (induction k arbitrary: a le)
  case 0
  then show ?case by simp
next
  case (Suc k)
  have "ans a = Inl (err a)" using Suc.prems by simp
  moreover have "fastFrom ans (Some (err a)) (Suc a) (Suc k) = Rejected (err (Suc a + k))"
    by (rule Suc.IH) (use Suc.prems in auto)
  ultimately show ?case by simp
qed

lemma afterIssue_failing:
  assumes "\<forall>b. a \<le> b \<and> b \<le> a + k \<longrightarrow> ans b = Inl (err b)"
  shows "issued i a # afterIssue issued i ans True a (Suc k) =
           concat (map (\<lambda>b. [issued i b, Waited i (100 * 2 ^ (b - 1))]) [a..<a + k])
           @ [issued i (a + k)]"
  using assms
proof (induction k arbitrary: a)
  case 0
  then show ?case by simp
next
  case (Suc k)
  have a: "ans a = Inl (err a)" using Suc.prems by simp
  have ih: "issued i (Suc a) # afterIssue issued i ans True (Suc a) (Suc k) =
           concat (map (\<lambda>b. [issued i b, Waited i (100 * 2 ^ (b - 1))]) [Suc a..<Suc a + k])
           @ [issued i (Suc a + k)]"
    by (rule Suc.IH) (use Suc.prems in auto)
  have u: "[a..<a + Suc k] = a # [Suc a..<Suc a + k]"
    by (simp add: upt_conv_Cons del: upt_Suc)
  have "issued i a # afterIssue issued i ans True a (Suc (Suc k))
        = issued i a # Waited i (backoffDelay a) # issued i (Suc a)
            # afterIssue issued i ans True (Suc a) (Suc k)"
    using a by simp
  also have "\<dots> = [issued i a, Waited i (100 * 2 ^ (a - 1))]
        @ concat (map (\<lambda>b. [issued i b, Waited i (100 * 2 ^ (b - 1))]) [Suc a..<Suc a + k])
        @ [issued i (Suc a + k)]"
    unfolding ih by (simp add: backoffDelay_def)
  also have "\<dots> = concat (map (\<lambda>b. [issued i b, Waited i (100 * 2 ^ (b - 1))]) [a..<a + Suc k])
           @ [issued i (a + Suc k)]"
    unfolding u by simp
  finally show ?case .
qed

lemma whole_number:
  "attemptsAllowed (Finite (of_nat n)) = n"
  "wholeCount (Finite (of_nat n)) = (1 \<le> n)"
  "leNumber a (Finite (of_nat n)) = (a \<le> n)"
  "boundedRetries (Finite q)"
  by (simp_all add: attemptsAllowed_def wholeCount_def boundedRetries_def)

lemma queuedOutcome_failing:
  assumes "1 \<le> n" "\<forall>a. 1 \<le> a \<and> a \<le> n \<longrightarrow> ans a = Inl (err a)"
  shows "queuedOutcome ans (Finite (of_nat n)) = Rejected (err n)"
proof -
  from assms(1) obtain k where k: "n = Suc k" by (cases n) auto
  have "\<forall>b. 1 \<le> b \<and> b \<le> 1 + k \<longrightarrow> ans b = Inl (err b)"
    using assms(2) k by auto
  from queuedFrom_failing[OF this] show ?thesis
    unfolding queuedOutcome_def whole_number k by simp
qed

lemma fastOutcome_failing:
  assumes "1 \<le> n" "\<forall>a. 1 \<le> a \<and> a \<le> n \<longrightarrow> ans a = Inl (err a)"
  shows "fastOutcome ans (Finite (of_nat n)) = Rejected (err n)"
proof -
  from assms(1) obtain k where k: "n = Suc k" by (cases n) auto
  have "\<forall>b. 1 \<le> b \<and> b \<le> 1 + k \<longrightarrow> ans b = Inl (err b)"
    using assms(2) k by auto
  from fastFrom_failing[OF this] show ?thesis
    unfolding fastOutcome_def whole_number k by simp
qed

lemma attemptsTrace_failing:
  assumes "1 \<le> n" "\<forall>a. 1 \<le> a \<and> a \<le> n \<longrightarrow> ans a = Inl (err a)"
  shows "attemptsTrace issued i ans (Finite (of_nat n)) = failingTrace issued i n"
proof -
  from assms(1) obtain k where k: "n = Suc k" by (cases n) auto
  have "\<forall>b. 1 \<le> b \<and> b \<le> 1 + k \<longrightarrow> ans b = Inl (err b)"
    using assms(2) k by auto
  from afterIssue_failing[OF this, of issued i] show ?thesis
    unfolding attemptsTrace_def failingTrace_def whole_number k by simp
qed


lemmas tab_steps =
  stateAfter_def runs_def submit_def executeQuery_def processPendingTransactions_def
  startTransaction_def queuedLoop_def fastLoop_def queuedAnswered_def fastAnswered_def
  queuedResumed_def fastResumed_def queryAnswered_def timerFired_def transactionSettled_def
  taskOf_def replaceTask_def removeTask_def settle_def remember_def warn_def operationOf_def
  initialTab_def readCall_def writeCall_def cleanupDatabase_queue_def Let_def

lemma runs_reachable: "runs es \<Longrightarrow> reachable (stateAfter es)"
  by (auto simp: runs_def reachable_def stateAfter_def split: option.splits)


lemma processPendingTransactions_frame:
  "submittedOps (processPendingTransactions s) = submittedOps s"
  "fastCalls (processPendingTransactions s) = fastCalls s"
  "fastAttempts (processPendingTransactions s) = fastAttempts s"
  "nextCall (processPendingTransactions s) = nextCall s"
  by (auto simp: processPendingTransactions_def startTransaction_def queuedLoop_def
      submittedOps_def fastAttempts_def remember_def Let_def split: list.splits)

lemma fastAttempts_simps:
  "fastAttempts (remember (Enqueued op) s) = fastAttempts s"
  "fastAttempts (s\<lparr>nextCall := n\<rparr>) = fastAttempts s"
  "fastAttempts (s\<lparr>pendingTransactions := p\<rparr>) = fastAttempts s"
  "fastAttempts (s\<lparr>nextCall := n, pendingTransactions := p\<rparr>) = fastAttempts s"
  by (simp_all add: fastAttempts_def)

lemma processPendingTransactions_keeps:
  "op \<in> set (pendingTransactions s) \<Longrightarrow>
     op \<in> set (pendingTransactions (processPendingTransactions s))
     \<or> op \<in> t_op ` set (transactions (processPendingTransactions s))"
  by (auto simp: processPendingTransactions_def startTransaction_fields split: list.splits)

lemma writeCall_modifying:
  "isModifyingQuery ''INSERT INTO patients (full_name) VALUES ($1)''"
  by code_simp

lemma readCall_not_modifying: "\<not> isModifyingQuery ''SELECT * FROM patients''"
  by code_simp




lemma queue_drained:
  assumes "\<forall>c \<in> set cs. queuedCall c" "\<forall>c \<in> set cs. boundedCall c"
  shows "\<exists>n. \<forall>m. runs (submit cs)
      \<and> quiescent (drained (n + m) db env cs)
      \<and> submittedOps (drained (n + m) db env cs) = operationsOf 0 cs
      \<and> startedOps (drained (n + m) db env cs) = operationsOf 0 cs
      \<and> releasedOps (drained (n + m) db env cs) = operationsOf 0 cs
      \<and> (\<forall>k<length cs.
            results (drained (n + m) db env cs) k
              = queuedOutcome (db k) (op_retries (operationOf k (cs ! k)))
            \<and> attemptsOf k (drained (n + m) db env cs)
              = attemptsTrace Issued k (db k) (op_retries (operationOf k (cs ! k))))"
proof -
  from queue_drains[OF assms, of db env] obtain n s0 s' where
    a: "run (submit cs) initialTab = Some s0"
      "\<forall>m. drain (n + m) db env s0 = s'"
      "quiescent s'"
      "submittedOps s' = operationsOf 0 cs"
      "startedOps s' = operationsOf 0 cs"
      "releasedOps s' = operationsOf 0 cs"
      "\<forall>k<length cs.
            results s' k = queuedOutcome (db k) (op_retries (operationOf k (cs ! k)))
            \<and> attemptsOf k s' = attemptsTrace Issued k (db k) (op_retries (operationOf k (cs ! k)))"
    by blast
  have d: "drained (n + m) db env cs = s'" for m
    using a(1,2) by (simp add: drained_def stateAfter_def)
  have r: "runs (submit cs)" using a(1) by (simp add: runs_def)
  show ?thesis
    using r a(3-) by (intro exI[of _ n]) (simp add: d)
qed

lemma transactionSettled_fresh_turn:
  assumes "transactionSettled i s = Some s1"
  shows "\<not> isTransactionInProgress s1 \<and> timers s1 = timers s @ [ProcessQueue]
     \<and> startedOps s1 = startedOps s \<and> pendingTransactions s1 = pendingTransactions s"
  using assms
  by (auto simp: transactionSettled_def startedOps_def remember_def
      split: option.splits phase.splits)


subsection \<open>Every step keeps the invariant of the call numbers\<close>

lemma attemptsOf_simps [simp]:
  "attemptsOf i (remember e s) = attemptsOf i s @ (if concerns i e then [e] else [])"
  "attemptsOf i (settle j v s) = attemptsOf i s"
  "attemptsOf i (warn er s) = attemptsOf i s"
  "attemptsOf i (s\<lparr>transactions := ts\<rparr>) = attemptsOf i s"
  "attemptsOf i (s\<lparr>timers := tm\<rparr>) = attemptsOf i s"
  "attemptsOf i (s\<lparr>fastCalls := fc\<rparr>) = attemptsOf i s"
  "attemptsOf i (s\<lparr>page := pg\<rparr>) = attemptsOf i s"
  "attemptsOf i (s\<lparr>pendingTransactions := pt\<rparr>) = attemptsOf i s"
  "attemptsOf i (s\<lparr>isTransactionInProgress := fl\<rparr>) = attemptsOf i s"
  "attemptsOf i (s\<lparr>nextCall := n\<rparr>) = attemptsOf i s"
  by (simp_all add: attemptsOf_def)

lemma task_submitted:
  assumes "queueInvariant s" "t \<in> set (transactions s)"
  shows "t_op t \<in> set (submittedOps s)"
  using assms unfolding queueInvariant_def by auto

lemma pending_submitted:
  assumes "queueInvariant s" "op \<in> set (pendingTransactions s)"
  shows "op \<in> set (submittedOps s)"
  using assms unfolding queueInvariant_def by auto

lemma same_id:
  assumes "callInvariant s" "op \<in> set (submittedOps s)" "op' \<in> set (submittedOps s)"
    "op_id op = op_id op'"
  shows "op = op'"
proof -
  from assms(1) have "inj_on op_id (set (submittedOps s))"
    by (simp add: callInvariant_def distinct_map)
  with assms(2-) show ?thesis by (auto dest: inj_onD)
qed

text \<open>
  Steps that record attempts of one call whose retry count admits a first attempt, and
  settle only the promise of that call.
\<close>

lemma call_frame:
  assumes "callInvariant s"
    and sub: "submittedOps s' = submittedOps s"
    and nc: "nextCall s' = nextCall s"
    and fc: "\<forall>t \<in> set (fastCalls s').
               op_id (t_op t) \<in> (\<lambda>t. op_id (t_op t)) ` set (fastCalls s)
               \<or> (op_id (t_op t) = i \<and> i \<notin> op_id ` set (submittedOps s))"
    and tr: "\<forall>t \<in> set (transactions s'). \<not> leNumber 1 (op_retries (t_op t)) \<longrightarrow> t_phase t = Returned"
    and res: "\<And>j. j \<noteq> i \<Longrightarrow> results s' j = results s j"
    and att: "\<And>j. j \<noteq> i \<Longrightarrow> attemptsOf j s' = attemptsOf j s"
    and own: "i < nextCall s"
    and pos: "\<forall>op \<in> set (submittedOps s). op_id op = i \<longrightarrow> leNumber 1 (op_retries op)"
  shows "callInvariant s'"
  unfolding callInvariant_def
proof (intro conjI)
  show "\<forall>op\<in>set (submittedOps s'). op_id op < nextCall s'"
    using assms(1) sub nc by (simp add: callInvariant_def)
  show "distinct (map op_id (submittedOps s'))"
    using assms(1) sub by (simp add: callInvariant_def)
  show "\<forall>t\<in>set (fastCalls s').
       op_id (t_op t) < nextCall s' \<and> op_id (t_op t) \<notin> op_id ` set (submittedOps s')"
    using assms(1) fc sub nc own unfolding callInvariant_def by force
  show "\<forall>t\<in>set (transactions s'). \<not> leNumber 1 (op_retries (t_op t)) \<longrightarrow> t_phase t = Returned"
    by (rule tr)
  show "\<forall>j\<ge>nextCall s'. results s' j = Pending \<and> attemptsOf j s' = []"
  proof (intro allI impI)
    fix j assume "nextCall s' \<le> j"
    with nc own have "j \<noteq> i" "nextCall s \<le> j" by auto
    with assms(1) res att show "results s' j = Pending \<and> attemptsOf j s' = []"
      by (simp add: callInvariant_def)
  qed
  show "\<forall>op\<in>set (submittedOps s').
       \<not> leNumber 1 (op_retries op)
       \<longrightarrow> results s' (op_id op) = Pending \<and> attemptsOf (op_id op) s' = []"
  proof (intro ballI impI)
    fix op assume op: "op \<in> set (submittedOps s')" "\<not> leNumber 1 (op_retries op)"
    with sub pos have "op_id op \<noteq> i" by auto
    with op sub assms(1) res att
    show "results s' (op_id op) = Pending \<and> attemptsOf (op_id op) s' = []"
      by (simp add: callInvariant_def)
  qed
qed

lemma call_startTransaction:
  assumes q: "queueInvariant s" and c: "callInvariant s"
    and p: "pendingTransactions s = op # rest" and f: "\<not> isTransactionInProgress s"
  shows "callInvariant (startTransaction op (s\<lparr>isTransactionInProgress := True, pendingTransactions := rest\<rparr>))"
proof -
  let ?s' = "startTransaction op (s\<lparr>isTransactionInProgress := True, pendingTransactions := rest\<rparr>)"
  have tr0: "transactions s = []" using q f by (simp add: queueInvariant_def)
  have mem: "op \<in> set (submittedOps s)" using pending_submitted[OF q] p by simp
  then have lt: "op_id op < nextCall s" using c by (simp add: callInvariant_def)
  have h: "history ?s' = history s
      @ Started op # (if leNumber 1 (op_retries op) then [Issued (op_id op) 1] else [])"
    by (simp add: startTransaction_fields)
  show ?thesis
  proof (cases "leNumber 1 (op_retries op)")
    case True
    show ?thesis
    proof (rule call_frame[OF c, where i = "op_id op"])
      show "submittedOps ?s' = submittedOps s" by (simp add: submittedOps_def h)
      show "nextCall ?s' = nextCall s" by (simp add: startTransaction_fields)
      show "\<forall>t\<in>set (fastCalls ?s').
            op_id (t_op t) \<in> (\<lambda>t. op_id (t_op t)) ` set (fastCalls s)
            \<or> (op_id (t_op t) = op_id op \<and> op_id op \<notin> op_id ` set (submittedOps s))"
        by (simp add: startTransaction_fields)
      show "\<forall>t\<in>set (transactions ?s'). \<not> leNumber 1 (op_retries (t_op t)) \<longrightarrow> t_phase t = Returned"
        using tr0 by (simp add: startTransaction_fields entryPhase_def)
      show "\<And>j. j \<noteq> op_id op \<Longrightarrow> results ?s' j = results s j"
        by (simp add: startTransaction_fields)
      show "\<And>j. j \<noteq> op_id op \<Longrightarrow> attemptsOf j ?s' = attemptsOf j s"
        by (simp add: attemptsOf_def h)
      show "op_id op < nextCall s" by (rule lt)
      show "\<forall>op'\<in>set (submittedOps s). op_id op' = op_id op \<longrightarrow> leNumber 1 (op_retries op')"
        using same_id[OF c _ mem] True by auto
    qed
  next
    case False
    have a: "attemptsOf j ?s' = attemptsOf j s" for j
      using False by (simp add: attemptsOf_def h)
    have s: "submittedOps ?s' = submittedOps s" by (simp add: submittedOps_def h)
    show ?thesis
      using c tr0 unfolding callInvariant_def a s
      by (simp add: startTransaction_fields entryPhase_def)
  qed
qed

lemma call_processPendingTransactions:
  assumes "queueInvariant s" "callInvariant s"
  shows "callInvariant (processPendingTransactions s)"
proof (cases "pendingTransactions s = [] \<or> isTransactionInProgress s")
  case True
  with assms show ?thesis by (simp add: processPendingTransactions_def)
next
  case False
  then obtain op rest where p: "pendingTransactions s = op # rest"
    by (cases "pendingTransactions s") auto
  from False have f: "\<not> isTransactionInProgress s" by simp
  from call_startTransaction[OF assms p f] False p show ?thesis
    by (simp add: processPendingTransactions_def)
qed


lemma call_queuedAnswered:
  assumes q: "queueInvariant s" and c: "callInvariant s"
    and t: "taskOf i (transactions s) = Some t" "t_phase t = AwaitQuery a"
  shows "callInvariant (queuedAnswered t a answer env s)"
proof -
  let ?s' = "queuedAnswered t a answer env s"
  from q have "length (transactions s) \<le> 1" by (simp add: queueInvariant_def)
  with t(1) have ts: "transactions s = [t]" "op_id (t_op t) = i" using single_task by blast+
  have mem: "t_op t \<in> set (submittedOps s)" using task_submitted[OF q] ts by simp
  have pos: "leNumber 1 (op_retries (t_op t))"
    using c ts t(2) unfolding callInvariant_def by force
  show ?thesis
  proof (rule call_frame[OF c, where i = i])
    show "submittedOps ?s' = submittedOps s"
      by (cases answer) (simp_all add: queuedAnswered_def Let_def queuedLoop_def split_beta)
    show "nextCall ?s' = nextCall s"
      by (cases answer) (simp_all add: queuedAnswered_def Let_def queuedLoop_def split_beta)
    show "\<forall>t\<in>set (fastCalls ?s').
            op_id (t_op t) \<in> (\<lambda>t. op_id (t_op t)) ` set (fastCalls s)
            \<or> (op_id (t_op t) = i \<and> i \<notin> op_id ` set (submittedOps s))"
      by (cases answer) (simp_all add: queuedAnswered_def Let_def queuedLoop_def split_beta)
    show "\<forall>t\<in>set (transactions ?s'). \<not> leNumber 1 (op_retries (t_op t)) \<longrightarrow> t_phase t = Returned"
      using pos ts
      by (cases answer) (auto simp: queuedAnswered_def Let_def queuedLoop_def split_beta)
    show "\<And>j. j \<noteq> i \<Longrightarrow> results ?s' j = results s j"
      using ts
      by (cases answer)
         (simp_all add: queuedAnswered_def Let_def queuedLoop_def split_beta settle_results)
    show "\<And>j. j \<noteq> i \<Longrightarrow> attemptsOf j ?s' = attemptsOf j s"
      using ts
      by (cases answer) (simp_all add: queuedAnswered_def Let_def queuedLoop_def split_beta)
    show "i < nextCall s" using c mem ts by (auto simp: callInvariant_def)
    show "\<forall>op\<in>set (submittedOps s). op_id op = i \<longrightarrow> leNumber 1 (op_retries op)"
      using same_id[OF c _ mem] pos ts by auto
  qed
qed

lemma call_queuedResumed:
  assumes q: "queueInvariant s" and c: "callInvariant s"
    and r: "queuedResumed i s = Some s'"
  shows "callInvariant s'"
proof -
  from r obtain t a where t: "taskOf i (transactions s) = Some t" "t_phase t = Backoff a"
    and s': "s' = (snd (queuedLoop (t_op t) (Suc a) s))
                    \<lparr>transactions := replaceTask i (t\<lparr>t_phase := fst (queuedLoop (t_op t) (Suc a) s)\<rparr>)
                        (transactions (snd (queuedLoop (t_op t) (Suc a) s)))\<rparr>"
    by (auto simp: queuedResumed_def split_beta Let_def split: option.splits phase.splits)
  from q have "length (transactions s) \<le> 1" by (simp add: queueInvariant_def)
  with t(1) have ts: "transactions s = [t]" "op_id (t_op t) = i" using single_task by blast+
  have mem: "t_op t \<in> set (submittedOps s)" using task_submitted[OF q] ts by simp
  have pos: "leNumber 1 (op_retries (t_op t))"
    using c ts t(2) unfolding callInvariant_def by force
  show ?thesis
  proof (rule call_frame[OF c, where i = i])
    show "submittedOps s' = submittedOps s" unfolding s' by simp
    show "nextCall s' = nextCall s" unfolding s' by simp
    show "\<forall>t\<in>set (fastCalls s').
            op_id (t_op t) \<in> (\<lambda>t. op_id (t_op t)) ` set (fastCalls s)
            \<or> (op_id (t_op t) = i \<and> i \<notin> op_id ` set (submittedOps s))"
      unfolding s' by simp
    show "\<forall>t\<in>set (transactions s'). \<not> leNumber 1 (op_retries (t_op t)) \<longrightarrow> t_phase t = Returned"
      unfolding s' using pos ts by simp
    show "\<And>j. j \<noteq> i \<Longrightarrow> results s' j = results s j" unfolding s' by simp
    show "\<And>j. j \<noteq> i \<Longrightarrow> attemptsOf j s' = attemptsOf j s"
      unfolding s' using ts by (simp add: queuedLoop_def)
    show "i < nextCall s" using c mem ts by (auto simp: callInvariant_def)
    show "\<forall>op\<in>set (submittedOps s). op_id op = i \<longrightarrow> leNumber 1 (op_retries op)"
      using same_id[OF c _ mem] pos ts by auto
  qed
qed

lemma removeTask_ids: "t \<in> set (removeTask i ts) \<Longrightarrow> t \<in> set ts"
  by (simp add: removeTask_def)

lemma call_fastLoop:
  assumes c: "callInvariant s" and lt: "op_id op < nextCall s"
    and ns: "op_id op \<notin> op_id ` set (submittedOps s)"
  shows "callInvariant (fastLoop op a le s)"
proof (rule call_frame[OF c, where i = "op_id op"])
  let ?s' = "fastLoop op a le s"
  show "submittedOps ?s' = submittedOps s" by (simp add: fastLoop_frame)
  show "nextCall ?s' = nextCall s" by (simp add: fastLoop_frame)
  show "\<forall>t\<in>set (fastCalls ?s').
            op_id (t_op t) \<in> (\<lambda>t. op_id (t_op t)) ` set (fastCalls s)
            \<or> (op_id (t_op t) = op_id op \<and> op_id op \<notin> op_id ` set (submittedOps s))"
    using ns by (auto simp: fastLoop_def Let_def dest: removeTask_ids)
  show "\<forall>t\<in>set (transactions ?s'). \<not> leNumber 1 (op_retries (t_op t)) \<longrightarrow> t_phase t = Returned"
    using c by (simp add: fastLoop_frame callInvariant_def)
  show "\<And>j. j \<noteq> op_id op \<Longrightarrow> results ?s' j = results s j"
    by (simp add: fastLoop_def Let_def settle_results)
  show "\<And>j. j \<noteq> op_id op \<Longrightarrow> attemptsOf j ?s' = attemptsOf j s"
    by (simp add: fastLoop_def Let_def)
  show "op_id op < nextCall s" by (rule lt)
  show "\<forall>op'\<in>set (submittedOps s). op_id op' = op_id op \<longrightarrow> leNumber 1 (op_retries op')"
    using ns by (auto simp: image_iff)
qed

lemma taskOf_mem: "taskOf i ts = Some t \<Longrightarrow> t \<in> set ts \<and> op_id (t_op t) = i"
  unfolding taskOf_def by (auto simp: find_Some_iff)

lemma call_fastAnswered:
  assumes c: "callInvariant s" and t: "taskOf i (fastCalls s) = Some t"
  shows "callInvariant (fastAnswered t a answer s)"
proof -
  from taskOf_mem[OF t] have m: "t \<in> set (fastCalls s)" "op_id (t_op t) = i" by simp_all
  with c have lt: "i < nextCall s" and ns: "i \<notin> op_id ` set (submittedOps s)"
    unfolding callInvariant_def by auto
  show ?thesis
  proof (cases answer)
    case (Inr result)
    let ?s' = "fastAnswered t a answer s"
    show ?thesis
    proof (rule call_frame[OF c, where i = i])
      show "submittedOps ?s' = submittedOps s" using Inr by (simp add: fastAnswered_def Let_def)
      show "nextCall ?s' = nextCall s" using Inr by (simp add: fastAnswered_def Let_def)
      show "\<forall>t\<in>set (fastCalls ?s').
            op_id (t_op t) \<in> (\<lambda>t. op_id (t_op t)) ` set (fastCalls s)
            \<or> (op_id (t_op t) = i \<and> i \<notin> op_id ` set (submittedOps s))"
        using Inr by (auto simp: fastAnswered_def Let_def dest: removeTask_ids)
      show "\<forall>t\<in>set (transactions ?s'). \<not> leNumber 1 (op_retries (t_op t)) \<longrightarrow> t_phase t = Returned"
        using c Inr by (simp add: fastAnswered_def Let_def callInvariant_def)
      show "\<And>j. j \<noteq> i \<Longrightarrow> results ?s' j = results s j"
        using Inr m by (simp add: fastAnswered_def Let_def settle_results)
      show "\<And>j. j \<noteq> i \<Longrightarrow> attemptsOf j ?s' = attemptsOf j s"
        using Inr by (simp add: fastAnswered_def Let_def)
      show "i < nextCall s" by (rule lt)
      show "\<forall>op'\<in>set (submittedOps s). op_id op' = i \<longrightarrow> leNumber 1 (op_retries op')"
        using ns by (auto simp: image_iff)
    qed
  next
    case (Inl e)
    show ?thesis
    proof (cases "ltNumber a (op_retries (t_op t))")
      case True
      let ?s' = "fastAnswered t a answer s"
      show ?thesis
      proof (rule call_frame[OF c, where i = i])
        show "submittedOps ?s' = submittedOps s"
          using Inl True by (simp add: fastAnswered_def Let_def)
        show "nextCall ?s' = nextCall s" using Inl True by (simp add: fastAnswered_def Let_def)
        show "\<forall>t\<in>set (fastCalls ?s').
            op_id (t_op t) \<in> (\<lambda>t. op_id (t_op t)) ` set (fastCalls s)
            \<or> (op_id (t_op t) = i \<and> i \<notin> op_id ` set (submittedOps s))"
          using Inl True m ns by (auto simp: fastAnswered_def Let_def replaceTask_def)
        show "\<forall>t\<in>set (transactions ?s'). \<not> leNumber 1 (op_retries (t_op t)) \<longrightarrow> t_phase t = Returned"
          using c Inl True by (simp add: fastAnswered_def Let_def callInvariant_def)
        show "\<And>j. j \<noteq> i \<Longrightarrow> results ?s' j = results s j"
          using Inl True by (simp add: fastAnswered_def Let_def)
        show "\<And>j. j \<noteq> i \<Longrightarrow> attemptsOf j ?s' = attemptsOf j s"
          using Inl True m by (simp add: fastAnswered_def Let_def)
        show "i < nextCall s" by (rule lt)
        show "\<forall>op'\<in>set (submittedOps s). op_id op' = i \<longrightarrow> leNumber 1 (op_retries op')"
          using ns by (auto simp: image_iff)
      qed
    next
      case False
      have cw: "callInvariant (warn e s)"
        using c unfolding callInvariant_def by simp
      have "callInvariant (fastLoop (t_op t) (Suc a) (Some e) (warn e s))"
        by (rule call_fastLoop[OF cw]) (use lt ns m in simp_all)
      with Inl False show ?thesis by (simp add: fastAnswered_def Let_def)
    qed
  qed
qed

lemma call_fastResumed:
  assumes c: "callInvariant s" and r: "fastResumed i s = Some s'"
  shows "callInvariant s'"
proof -
  from r obtain t a where t: "taskOf i (fastCalls s) = Some t"
    and s': "s' = fastLoop (t_op t) (Suc a) (t_lastError t) s"
    by (auto simp: fastResumed_def split: option.splits phase.splits)
  from taskOf_mem[OF t] have m: "t \<in> set (fastCalls s)" "op_id (t_op t) = i" by simp_all
  with c have lt: "i < nextCall s" and ns: "i \<notin> op_id ` set (submittedOps s)"
    unfolding callInvariant_def by auto
  show ?thesis unfolding s'
    by (rule call_fastLoop[OF c]) (use lt ns m in simp_all)
qed

lemma call_transactionSettled:
  assumes c: "callInvariant s" and r: "transactionSettled i s = Some s'"
  shows "callInvariant s'"
proof -
  from r obtain t where t: "taskOf i (transactions s) = Some t" "t_phase t = Returned"
    and s': "s' = (remember (Released (t_op t)) s)
                       \<lparr>isTransactionInProgress := False,
                        timers := timers s @ [ProcessQueue],
                        transactions := removeTask i (transactions s)\<rparr>"
    by (auto simp: transactionSettled_def split: option.splits phase.splits)
  show ?thesis
    using c unfolding s' callInvariant_def
    by (auto dest: removeTask_ids)
qed

lemma call_cleanupDatabase_queue:
  assumes "callInvariant s"
  shows "callInvariant (cleanupDatabase_queue s)"
  using assms unfolding callInvariant_def cleanupDatabase_queue_def by simp

lemma call_executeQuery:
  assumes q: "queueInvariant s" and c: "callInvariant s"
  shows "callInvariant (executeQuery cl g s)"
proof -
  let ?n = "nextCall s"
  let ?s0 = "s\<lparr>nextCall := Suc ?n\<rparr>"
  let ?op = "operationOf ?n cl"
  have c0: "callInvariant ?s0"
    using c unfolding callInvariant_def by auto
  have ns: "?n \<notin> op_id ` set (submittedOps ?s0)"
    using c unfolding callInvariant_def by auto
  show ?thesis
  proof (cases g)
    case (GuardFailed e)
    let ?s' = "settle ?n (Rejected (Error (''Failed to initialize database: '' @ message e))) ?s0"
    have "callInvariant ?s'"
    proof (rule call_frame[OF c0, where i = ?n])
      show "\<forall>op'\<in>set (submittedOps ?s0). op_id op' = ?n \<longrightarrow> leNumber 1 (op_retries op')"
        using ns by (auto simp: image_iff)
    qed (use c0 in \<open>simp_all add: settle_results callInvariant_def\<close>)
    with GuardFailed show ?thesis by (simp add: executeQuery_def Let_def)
  next
    case GuardPassed
    show ?thesis
    proof (cases "queuedCall cl")
      case False
      have "callInvariant (fastLoop ?op 1 None ?s0)"
        by (rule call_fastLoop[OF c0]) (use ns in simp_all)
      with GuardPassed False show ?thesis
        by (auto simp: executeQuery_def Let_def queuedCall_def)
    next
      case True
      let ?s1 = "remember (Enqueued ?op)
                   (?s0\<lparr>pendingTransactions := pendingTransactions ?s0 @ [?op]\<rparr>)"
      have q0: "queueInvariant ?s0" using q by (rule inv_frame) simp_all
      have q1: "queueInvariant ?s1" using q0 by (rule inv_enqueue)
      have c1: "callInvariant ?s1"
        using c unfolding callInvariant_def by (auto simp: less_Suc_eq)
      have "callInvariant (processPendingTransactions ?s1)"
        using q1 c1 by (rule call_processPendingTransactions)
      with GuardPassed show ?thesis
        using executeQuery_queued[OF True, of s] by simp
    qed
  qed
qed

lemma call_queryAnswered:
  assumes "queueInvariant s" "callInvariant s" "queryAnswered i answer env s = Some s'"
  shows "callInvariant s'"
  using assms
  by (auto simp: queryAnswered_def split: option.splits phase.splits
      intro: call_queuedAnswered call_fastAnswered)

lemma call_timerFired:
  assumes q: "queueInvariant s" and c: "callInvariant s" and r: "timerFired t s = Some s'"
  shows "callInvariant s'"
proof -
  let ?s1 = "s\<lparr>timers := remove1 t (timers s)\<rparr>"
  have q1: "queueInvariant ?s1" using q by (rule inv_frame) simp_all
  have c1: "callInvariant ?s1" using c unfolding callInvariant_def by simp
  from r show ?thesis
    using q1 c1
    by (auto simp: timerFired_def Let_def split: if_splits timer.splits
        intro: call_processPendingTransactions call_queuedResumed call_fastResumed)
qed

lemma call_step:
  assumes "queueInvariant s" "callInvariant s" "step e s = Some s'"
  shows "callInvariant s'"
  using assms
  by (cases e)
     (auto intro: call_executeQuery call_queryAnswered call_timerFired call_transactionSettled
        call_cleanupDatabase_queue)

lemma both_run:
  "queueInvariant s \<Longrightarrow> callInvariant s \<Longrightarrow> run es s = Some s'
     \<Longrightarrow> queueInvariant s' \<and> callInvariant s'"
proof (induction es arbitrary: s)
  case Nil
  then show ?case by simp
next
  case (Cons e es)
  from Cons.prems(3) obtain s1 where s1: "step e s = Some s1" "run es s1 = Some s'"
    by (auto split: option.splits)
  have "queueInvariant s1" using inv_step[OF Cons.prems(1) s1(1)] .
  moreover have "callInvariant s1" using call_step[OF Cons.prems(1,2) s1(1)] .
  ultimately show ?case using Cons.IH s1(2) by blast
qed

lemma call_initial: "callInvariant initialTab"
  by (simp add: callInvariant_def initialTab_def submittedOps_def attemptsOf_def)

lemma call_reachable: "reachable s \<Longrightarrow> callInvariant s"
  unfolding reachable_def using both_run[OF inv_initial call_initial] by blast


subsection \<open>A call on the fast path\<close>

lemma fast_last:
  assumes "transactions s = []" "fastCalls s = [t]" "t_phase t = AwaitQuery a" "timers s = []"
    and b: "boundedRetries (op_retries (t_op t))" and a: "1 \<le> a"
    and r: "attemptsAllowed (op_retries (t_op t)) = a"
  shows "\<exists>n s'. (\<forall>m. drain (n + m) db env s = drain m db env s')
      \<and> transactions s' = [] \<and> fastCalls s' = [] \<and> timers s' = []
      \<and> isTransactionInProgress s' = isTransactionInProgress s
      \<and> pendingTransactions s' = pendingTransactions s
      \<and> nextCall s' = nextCall s
      \<and> results s' = results (settle (op_id (t_op t))
                         (fastFrom (db (op_id (t_op t))) (t_lastError t) a (Suc 0)) s)
      \<and> history s' = history s
            @ afterIssue FastIssued (op_id (t_op t)) (db (op_id (t_op t)))
                (wholeCount (op_retries (t_op t))) a (Suc 0)"
proof -
  let ?i = "op_id (t_op t)" let ?r = "op_retries (t_op t)"
  have le: "\<not> leNumber (Suc a) ?r"
    using leNumber_bounded[OF b, of "Suc a"] r by simp
  have lt: "ltNumber a ?r = (\<not> wholeCount ?r)"
    using ltNumber_bounded[OF b a] r by simp
  have ne: "nextEvent db env s = Some (QueryAnswered ?i (db ?i a) env)"
    using assms(1-3) by (simp add: nextEvent_def Let_def)
  let ?s1 = "fastAnswered t a (db ?i a) s"
  have st: "step (QueryAnswered ?i (db ?i a) env) s = Some ?s1"
    using assms(1-3) by (simp add: queryAnswered_def taskOf_def)
  have d1: "\<forall>m. drain (1 + m) db env s = drain m db env ?s1"
    using ne st by simp
  show ?thesis
  proof (cases "db ?i a")
    case (Inr res)
    have "transactions ?s1 = [] \<and> fastCalls ?s1 = [] \<and> timers ?s1 = []
      \<and> isTransactionInProgress ?s1 = isTransactionInProgress s
      \<and> pendingTransactions ?s1 = pendingTransactions s
      \<and> nextCall ?s1 = nextCall s
      \<and> results ?s1 = results (settle ?i (fastFrom (db ?i) (t_lastError t) a (Suc 0)) s)
      \<and> history ?s1 = history s @ afterIssue FastIssued ?i (db ?i) (wholeCount ?r) a (Suc 0)"
      using assms(1-4) Inr by (simp add: fastAnswered_def Let_def settle_def)
    with d1 show ?thesis by blast
  next
    case (Inl e)
    show ?thesis
    proof (cases "wholeCount ?r")
      case True
      have "transactions ?s1 = [] \<and> fastCalls ?s1 = [] \<and> timers ?s1 = []
        \<and> isTransactionInProgress ?s1 = isTransactionInProgress s
        \<and> pendingTransactions ?s1 = pendingTransactions s
        \<and> nextCall ?s1 = nextCall s
        \<and> results ?s1 = results (settle ?i (fastFrom (db ?i) (t_lastError t) a (Suc 0)) s)
        \<and> history ?s1 = history s @ afterIssue FastIssued ?i (db ?i) (wholeCount ?r) a (Suc 0)"
        using assms(1-4) Inl True le lt
        by (simp add: fastAnswered_def fastLoop_def Let_def settle_def)
      with d1 show ?thesis by blast
    next
      case False
      let ?t1 = "t\<lparr>t_phase := Backoff a, t_lastError := Some e\<rparr>"
      have s1: "transactions ?s1 = []" "fastCalls ?s1 = [?t1]"
        "timers ?s1 = [ResumeFast ?i (backoffDelay a)]"
        "isTransactionInProgress ?s1 = isTransactionInProgress s"
        "pendingTransactions ?s1 = pendingTransactions s"
        "nextCall ?s1 = nextCall s"
        "results ?s1 = results s"
        "history ?s1 = history s @ [Waited ?i (backoffDelay a)]"
        using assms(1-4) Inl False lt by (simp_all add: fastAnswered_def Let_def)
      have ne1: "nextEvent db env ?s1 = Some (TimerFired (ResumeFast ?i (backoffDelay a)))"
        using s1 by (simp add: nextEvent_def Let_def)
      let ?s2 = "settle ?i (Rejected e) (?s1\<lparr>timers := [], fastCalls := []\<rparr>)"
      have st1: "step (TimerFired (ResumeFast ?i (backoffDelay a))) ?s1 = Some ?s2"
        using s1 le
        by (simp add: timerFired_def fastResumed_def fastLoop_def Let_def taskOf_def)
      have d2: "\<forall>m. drain (2 + m) db env s = drain m db env ?s2"
      proof
        fix m
        have e: "2 + m = 1 + Suc m" by simp
        have "drain (2 + m) db env s = drain (1 + Suc m) db env s" by (simp only: e)
        also have "\<dots> = drain (Suc m) db env ?s1" using d1 by blast
        also have "\<dots> = drain m db env ?s2" using ne1 st1 by simp
        finally show "drain (2 + m) db env s = drain m db env ?s2" .
      qed
      have "transactions ?s2 = [] \<and> fastCalls ?s2 = [] \<and> timers ?s2 = []
        \<and> isTransactionInProgress ?s2 = isTransactionInProgress s
        \<and> pendingTransactions ?s2 = pendingTransactions s
        \<and> nextCall ?s2 = nextCall s
        \<and> results ?s2 = results (settle ?i (fastFrom (db ?i) (t_lastError t) a (Suc 0)) s)
        \<and> history ?s2 = history s @ afterIssue FastIssued ?i (db ?i) (wholeCount ?r) a (Suc 0)"
        using s1 Inl False by (simp add: settle_def)
      with d2 show ?thesis by blast
    qed
  qed
qed

lemma fast_body:
  assumes "transactions s = []" "fastCalls s = [t]" "t_phase t = AwaitQuery a" "timers s = []"
    and "boundedRetries (op_retries (t_op t))" and "1 \<le> a"
    and "attemptsAllowed (op_retries (t_op t)) = a + k"
  shows "\<exists>n s'. (\<forall>m. drain (n + m) db env s = drain m db env s')
      \<and> transactions s' = [] \<and> fastCalls s' = [] \<and> timers s' = []
      \<and> isTransactionInProgress s' = isTransactionInProgress s
      \<and> pendingTransactions s' = pendingTransactions s
      \<and> nextCall s' = nextCall s
      \<and> results s' = results (settle (op_id (t_op t))
                         (fastFrom (db (op_id (t_op t))) (t_lastError t) a (Suc k)) s)
      \<and> history s' = history s
            @ afterIssue FastIssued (op_id (t_op t)) (db (op_id (t_op t)))
                (wholeCount (op_retries (t_op t))) a (Suc k)"
  using assms
proof (induction k arbitrary: s t a)
  case 0
  then have "attemptsAllowed (op_retries (t_op t)) = a" by simp
  from fast_last[OF 0(1-6) this] show ?case .
next
  case (Suc k)
  let ?i = "op_id (t_op t)" let ?r = "op_retries (t_op t)"
  have le: "leNumber (Suc a) ?r"
    using leNumber_bounded[OF Suc.prems(5), of "Suc a"] Suc.prems(7) by simp
  have lt: "ltNumber a ?r"
    using ltNumber_bounded[OF Suc.prems(5,6)] Suc.prems(7) by simp
  have ne: "nextEvent db env s = Some (QueryAnswered ?i (db ?i a) env)"
    using Suc.prems by (simp add: nextEvent_def Let_def)
  let ?s1 = "fastAnswered t a (db ?i a) s"
  have st: "step (QueryAnswered ?i (db ?i a) env) s = Some ?s1"
    using Suc.prems by (simp add: queryAnswered_def taskOf_def)
  have d1: "\<forall>m. drain (1 + m) db env s = drain m db env ?s1"
    using ne st by simp
  show ?case
  proof (cases "db ?i a")
    case (Inr r)
    have f: "transactions ?s1 = [] \<and> fastCalls ?s1 = [] \<and> timers ?s1 = []
      \<and> isTransactionInProgress ?s1 = isTransactionInProgress s
      \<and> pendingTransactions ?s1 = pendingTransactions s
      \<and> nextCall ?s1 = nextCall s
      \<and> results ?s1 = results (settle ?i (fastFrom (db ?i) (t_lastError t) a (Suc (Suc k))) s)
      \<and> history ?s1 = history s
            @ afterIssue FastIssued ?i (db ?i) (wholeCount ?r) a (Suc (Suc k))"
      using Suc.prems(1-4) Inr by (simp add: fastAnswered_def Let_def settle_def)
    from d1 f show ?thesis by blast
  next
    case (Inl e)
    let ?t1 = "t\<lparr>t_phase := Backoff a, t_lastError := Some e\<rparr>"
    have s1: "transactions ?s1 = []" "fastCalls ?s1 = [?t1]"
      "timers ?s1 = [ResumeFast ?i (backoffDelay a)]"
      "isTransactionInProgress ?s1 = isTransactionInProgress s"
      "pendingTransactions ?s1 = pendingTransactions s"
      "nextCall ?s1 = nextCall s"
      "results ?s1 = results s"
      "history ?s1 = history s @ [Waited ?i (backoffDelay a)]"
      using Suc.prems(1-4) Inl lt by (simp_all add: fastAnswered_def Let_def)
    have ne1: "nextEvent db env ?s1 = Some (TimerFired (ResumeFast ?i (backoffDelay a)))"
      using s1 by (simp add: nextEvent_def Let_def)
    let ?t2 = "\<lparr>t_op = t_op t, t_phase = AwaitQuery (Suc a), t_lastError = Some e\<rparr>"
    let ?s2 = "(remember (FastIssued ?i (Suc a)) (?s1\<lparr>timers := []\<rparr>))\<lparr>fastCalls := [?t2]\<rparr>"
    have st1: "step (TimerFired (ResumeFast ?i (backoffDelay a))) ?s1 = Some ?s2"
      using s1 le
      by (simp add: timerFired_def fastResumed_def fastLoop_def Let_def taskOf_def)
    have d2: "\<forall>m. drain (2 + m) db env s = drain m db env ?s2"
    proof
      fix m
      have e: "2 + m = 1 + Suc m" by simp
      have "drain (2 + m) db env s = drain (1 + Suc m) db env s" by (simp only: e)
      also have "\<dots> = drain (Suc m) db env ?s1" using d1 by blast
      also have "\<dots> = drain m db env ?s2" using ne1 st1 by simp
      finally show "drain (2 + m) db env s = drain m db env ?s2" .
    qed
    have p2: "transactions ?s2 = []" "fastCalls ?s2 = [?t2]" "t_phase ?t2 = AwaitQuery (Suc a)"
      "timers ?s2 = []" "boundedRetries (op_retries (t_op ?t2))" "1 \<le> Suc a"
      "attemptsAllowed (op_retries (t_op ?t2)) = Suc a + k"
      using Suc.prems(5,7) s1 by simp_all
    from Suc.IH[OF p2] obtain n s' where
      ih: "\<forall>m. drain (n + m) db env ?s2 = drain m db env s'"
        "transactions s' = []" "fastCalls s' = []" "timers s' = []"
        "isTransactionInProgress s' = isTransactionInProgress ?s2"
        "pendingTransactions s' = pendingTransactions ?s2"
        "nextCall s' = nextCall ?s2"
        "results s' = results (settle (op_id (t_op ?t2))
                         (fastFrom (db (op_id (t_op ?t2))) (t_lastError ?t2) (Suc a) (Suc k)) ?s2)"
        "history s' = history ?s2
           @ afterIssue FastIssued (op_id (t_op ?t2)) (db (op_id (t_op ?t2)))
               (wholeCount (op_retries (t_op ?t2))) (Suc a) (Suc k)"
      by blast
    have d3: "\<forall>m. drain ((2 + n) + m) db env s = drain m db env s'"
    proof
      fix m
      have e: "(2 + n) + m = 2 + (n + m)" by simp
      have "drain ((2 + n) + m) db env s = drain (2 + (n + m)) db env s" by (simp only: e)
      also have "\<dots> = drain (n + m) db env ?s2" using d2 by blast
      also have "\<dots> = drain m db env s'" using ih(1) by blast
      finally show "drain ((2 + n) + m) db env s = drain m db env s'" .
    qed
    have f: "isTransactionInProgress s' = isTransactionInProgress s"
      "pendingTransactions s' = pendingTransactions s"
      "nextCall s' = nextCall s"
      "results s' = results (settle ?i (fastFrom (db ?i) (t_lastError t) a (Suc (Suc k))) s)"
      "history s' = history s
         @ afterIssue FastIssued ?i (db ?i) (wholeCount ?r) a (Suc (Suc k))"
      using ih(5-) s1 Inl by (simp_all add: settle_def)
    from d3 ih(2-4) f show ?thesis by blast
  qed
qed

lemma afterIssue_concerns_fast:
  "filter (concerns j) (afterIssue FastIssued i ans w a k) =
     (if i = j then afterIssue FastIssued i ans w a k else [])"
  by (induction k arbitrary: a) (auto split: sum.splits)

lemma afterIssue_fast_enqueued [simp]:
  "concat (map enqueuedIn (afterIssue FastIssued i ans w a k)) = []"
  by (induction k arbitrary: a) (auto split: sum.splits)

text \<open>A single call on the fast path, made in the initial state.\<close>

lemma fast_drained:
  assumes "\<not> queuedCall c" "boundedCall c"
  shows "\<exists>n. \<forall>m. quiescent (drained (n + m) db env [c])
      \<and> results (drained (n + m) db env [c]) 0 = fastOutcome (db 0) (op_retries (operationOf 0 c))
      \<and> attemptsOf 0 (drained (n + m) db env [c])
          = attemptsTrace FastIssued 0 (db 0) (op_retries (operationOf 0 c))
      \<and> submittedOps (drained (n + m) db env [c]) = []"
proof -
  let ?op = "operationOf 0 c" let ?r = "op_retries (operationOf 0 c)"
  let ?s0 = "fastLoop ?op 1 None (initialTab\<lparr>nextCall := 1\<rparr>)"
  from assms(1) have fp: "c_skipQueue c \<and> \<not> isModifyingQuery (c_query c)"
    by (simp add: queuedCall_def)
  from assms(2) have bd: "boundedRetries ?r"
    by (simp add: bounded_operationOf del: operationOf_fields)
  have s0: "stateAfter (submit [c]) = ?s0"
    using fp by (simp add: stateAfter_def submit_def executeQuery_def Let_def initialTab_def)
  show ?thesis
  proof (cases "leNumber 1 ?r")
    case False
    then have z: "attemptsAllowed ?r = 0" by (rule no_attempt)
    have q: "quiescent ?s0" using False
      by (simp add: quiescent_def fastLoop_def Let_def initialTab_def removeTask_def settle_def)
    have "results ?s0 0 = fastFrom (db 0) None 1 0"
      using False by (simp add: fastLoop_def Let_def initialTab_def settle_def)
    then have r: "results ?s0 0 = fastOutcome (db 0) ?r"
      unfolding fastOutcome_def z by simp
    have "attemptsOf 0 ?s0 = []"
      using False by (simp add: fastLoop_def Let_def initialTab_def settle_def attemptsOf_def)
    then have a: "attemptsOf 0 ?s0 = attemptsTrace FastIssued 0 (db 0) ?r"
      unfolding attemptsTrace_def using False by simp
    have "submittedOps ?s0 = submittedOps (initialTab\<lparr>nextCall := 1\<rparr>)"
      by (rule fastLoop_frame)
    then have su: "submittedOps ?s0 = []"
      by (simp add: submittedOps_def initialTab_def)
    have "drained (0 + m) db env [c] = ?s0" for m
      unfolding drained_def s0 using q by (simp add: drain_quiescent)
    with q r a su show ?thesis by (intro exI[of _ 0]) simp
  next
    case True
    then have "1 \<le> attemptsAllowed ?r" using leNumber_bounded[OF bd, of 1] by simp
    then obtain k where k: "attemptsAllowed ?r = Suc k" by (cases "attemptsAllowed ?r") auto
    then have rr: "attemptsAllowed ?r = 1 + k" by simp
    let ?t = "\<lparr>t_op = ?op, t_phase = AwaitQuery 1, t_lastError = None\<rparr>"
    have f0: "transactions ?s0 = []" "fastCalls ?s0 = [?t]" "t_phase ?t = AwaitQuery 1"
      "timers ?s0 = []" "boundedRetries (op_retries (t_op ?t))" "(1::nat) \<le> 1"
      "attemptsAllowed (op_retries (t_op ?t)) = 1 + k"
      "history ?s0 = [FastIssued 0 1]" "results ?s0 = (\<lambda>i. Pending)"
      "pendingTransactions ?s0 = []" "\<not> isTransactionInProgress ?s0"
      using True rr bd
      by (simp_all add: fastLoop_def Let_def initialTab_def removeTask_def remember_def)
    from fast_body[OF f0(1-7), of db env] obtain n s' where
      b: "\<forall>m. drain (n + m) db env ?s0 = drain m db env s'"
        "transactions s' = []" "fastCalls s' = []" "timers s' = []"
        "isTransactionInProgress s' = isTransactionInProgress ?s0"
        "pendingTransactions s' = pendingTransactions ?s0"
        "results s' = results (settle (op_id (t_op ?t))
                         (fastFrom (db (op_id (t_op ?t))) (t_lastError ?t) 1 (Suc k)) ?s0)"
        "history s' = history ?s0
           @ afterIssue FastIssued (op_id (t_op ?t)) (db (op_id (t_op ?t)))
               (wholeCount (op_retries (t_op ?t))) 1 (Suc k)"
      by blast
    have q: "quiescent s'" using b f0 by (simp add: quiescent_def)
    have d: "drained (n + m) db env [c] = s'" for m
      unfolding drained_def s0 using b(1) q by (simp add: drain_quiescent)
    have "results s' 0 = fastFrom (db 0) None 1 (Suc k)"
      using b(7) f0(9) by (simp add: settle_def)
    then have r: "results s' 0 = fastOutcome (db 0) ?r"
      unfolding fastOutcome_def k by simp
    have h: "history s' = FastIssued 0 1 # afterIssue FastIssued 0 (db 0) (wholeCount ?r) 1 (Suc k)"
      using b(8) f0(8) by simp
    have "attemptsOf 0 s' = FastIssued 0 1 # afterIssue FastIssued 0 (db 0) (wholeCount ?r) 1 (Suc k)"
      unfolding attemptsOf_def h by (simp add: afterIssue_concerns_fast del: afterIssue.simps)
    then have a: "attemptsOf 0 s' = attemptsTrace FastIssued 0 (db 0) ?r"
      unfolding attemptsTrace_def k using True by simp
    have su: "submittedOps s' = []"
      unfolding submittedOps_def h
      by (simp del: concat_eq_Nil_conv afterIssue.simps)
    from q r a su show ?thesis by (intro exI[of _ n]) (simp add: d)
  qed
qed


subsection \<open>Histories only grow; the retry ceiling\<close>

lemma step_history: "step e s = Some s' \<Longrightarrow> \<exists>h. history s' = history s @ h"
  by (cases e)
     (auto simp: executeQuery_def processPendingTransactions_def startTransaction_def
        queuedLoop_def fastLoop_def queuedAnswered_def fastAnswered_def queuedResumed_def
        fastResumed_def queryAnswered_def timerFired_def transactionSettled_def settle_def
        remember_def warn_def cleanupDatabase_queue_def Let_def split_beta
        split: option.splits phase.splits guard.splits list.splits sum.splits timer.splits
          if_splits)

lemma run_history: "run es s = Some s' \<Longrightarrow> \<exists>h. history s' = history s @ h"
proof (induction es arbitrary: s)
  case Nil
  then show ?case by simp
next
  case (Cons e es)
  from Cons.prems obtain s1 where s1: "step e s = Some s1" "run es s1 = Some s'"
    by (auto split: option.splits)
  from step_history[OF s1(1)] Cons.IH[OF s1(2)] show ?case by auto
qed

lemma run_submitted:
  "run es s = Some s' \<Longrightarrow> set (submittedOps s) \<subseteq> set (submittedOps s')"
  using run_history[of es s s'] by (auto simp: submittedOps_def)

lemma reachable_run:
  assumes "reachable s" "run es s = Some s'"
  shows "reachable s'"
proof -
  from assms(1) obtain es0 where "run es0 initialTab = Some s" by (auto simp: reachable_def)
  with assms(2) have "run (es0 @ es) initialTab = Some s'" by (simp add: run_append)
  then show ?thesis unfolding reachable_def by blast
qed

lemma reachable_step: "reachable s \<Longrightarrow> step e s = Some s' \<Longrightarrow> reachable s'"
  using reachable_run[of s "[e]" s'] by simp

lemma queuedOutcome_none: "\<not> leNumber 1 r \<Longrightarrow> queuedOutcome ans r = Pending"
  by (simp add: queuedOutcome_def no_attempt)

lemma retry_ceiling:
  assumes "op_retries (operationOf 0 c) = Finite (of_nat r)" and "1 \<le> r"
    and "\<forall>a. 1 \<le> a \<and> a \<le> r \<longrightarrow> db 0 a = Inl (err a)"
  shows "\<exists>n. \<forall>m. quiescent (drained (n + m) db env [c])
      \<and> results (drained (n + m) db env [c]) 0 = Rejected (err r)
      \<and> attemptsOf 0 (drained (n + m) db env [c])
          = failingTrace (if queuedCall c then Issued else FastIssued) 0 r"
proof (cases "queuedCall c")
  case True
  have bc: "boundedCall c"
    using assms(1) by (auto simp: boundedCall_def operationOf_def)
  from True bc have "\<forall>c' \<in> set [c]. queuedCall c'" "\<forall>c' \<in> set [c]. boundedCall c'"
    by simp_all
  from queue_drained[OF this, of db env] obtain n where
    n: "\<forall>m. runs (submit [c])
      \<and> quiescent (drained (n + m) db env [c])
      \<and> submittedOps (drained (n + m) db env [c]) = operationsOf 0 [c]
      \<and> startedOps (drained (n + m) db env [c]) = operationsOf 0 [c]
      \<and> releasedOps (drained (n + m) db env [c]) = operationsOf 0 [c]
      \<and> (\<forall>k<length [c].
            results (drained (n + m) db env [c]) k
              = queuedOutcome (db k) (op_retries (operationOf k ([c] ! k)))
            \<and> attemptsOf k (drained (n + m) db env [c])
              = attemptsTrace Issued k (db k) (op_retries (operationOf k ([c] ! k))))"
    by blast
  have o: "queuedOutcome (db 0) (op_retries (operationOf 0 c)) = Rejected (err r)"
    unfolding assms(1) using assms(2,3) by (rule queuedOutcome_failing)
  have t: "attemptsTrace Issued 0 (db 0) (op_retries (operationOf 0 c))
           = failingTrace Issued 0 r"
    unfolding assms(1) using assms(2,3) by (rule attemptsTrace_failing)
  have "\<forall>m. quiescent (drained (n + m) db env [c])
      \<and> results (drained (n + m) db env [c]) 0 = Rejected (err r)
      \<and> attemptsOf 0 (drained (n + m) db env [c]) = failingTrace Issued 0 r"
  proof
    fix m
    from n have "quiescent (drained (n + m) db env [c])"
      and "\<forall>k<length [c].
            results (drained (n + m) db env [c]) k
              = queuedOutcome (db k) (op_retries (operationOf k ([c] ! k)))
            \<and> attemptsOf k (drained (n + m) db env [c])
              = attemptsTrace Issued k (db k) (op_retries (operationOf k ([c] ! k)))"
      by blast+
    then show "quiescent (drained (n + m) db env [c])
      \<and> results (drained (n + m) db env [c]) 0 = Rejected (err r)
      \<and> attemptsOf 0 (drained (n + m) db env [c]) = failingTrace Issued 0 r"
      using o t by (simp del: operationOf_fields)
  qed
  with True show ?thesis by auto
next
  case False
  have bc: "boundedCall c"
    using assms(1) by (auto simp: boundedCall_def operationOf_def)
  from fast_drained[OF False bc, of db env] obtain n where
    n: "\<forall>m. quiescent (drained (n + m) db env [c])
      \<and> results (drained (n + m) db env [c]) 0 = fastOutcome (db 0) (op_retries (operationOf 0 c))
      \<and> attemptsOf 0 (drained (n + m) db env [c])
          = attemptsTrace FastIssued 0 (db 0) (op_retries (operationOf 0 c))
      \<and> submittedOps (drained (n + m) db env [c]) = []"
    by blast
  have o: "fastOutcome (db 0) (op_retries (operationOf 0 c)) = Rejected (err r)"
    unfolding assms(1) using assms(2,3) by (rule fastOutcome_failing)
  have t: "attemptsTrace FastIssued 0 (db 0) (op_retries (operationOf 0 c))
           = failingTrace FastIssued 0 r"
    unfolding assms(1) using assms(2,3) by (rule attemptsTrace_failing)
  from n o t False show ?thesis by (intro exI[of _ n]) (simp del: operationOf_fields)
qed


lemma initial_reachable: "reachable initialTab"
  unfolding reachable_def by (rule exI[of _ "[]"]) simp

subsection \<open>The discipline of the queue\<close>

text \<open>
  In every state the tab can reach, teardown included, at most one operation taken from
  the queue is executing, and \<^verbatim>\<open>isTransactionInProgress\<close> holds exactly while one is
  taken; the operations are started in the order of their submission, and an operation
  that was submitted has been started, waits in the queue, or was thrown away by
  \<^verbatim>\<open>cleanupDatabase\<close>; every started operation except the one in progress has been
  released by the \<^verbatim>\<open>finally\<close> block of \<^verbatim>\<open>processPendingTransactions\<close>, with its
  promise settled when its retry count is a whole number of at least 1.
\<close>

lemma queue_discipline:
  assumes "reachable s"
  shows "length (transactions s) \<le> 1
     \<and> length (executing s) \<le> 1
     \<and> (isTransactionInProgress s \<longleftrightarrow> transactions s \<noteq> [])
     \<and> subseq (startedOps s @ pendingTransactions s) (submittedOps s)
     \<and> set (submittedOps s)
         = set (startedOps s) \<union> set (pendingTransactions s) \<union> set (discardedOps s)
     \<and> startedOps s = releasedOps s @ map t_op (transactions s)
     \<and> (\<forall>op \<in> set (releasedOps s).
           wholeCount (op_retries op) \<longrightarrow> results s (op_id op) \<noteq> Pending)"
proof -
  from assms have inv: "queueInvariant s" by (rule inv_reachable)
  have "length (executing s) \<le> length (transactions s)"
    by (simp add: executing_def)
  with inv show ?thesis unfolding queueInvariant_def by auto
qed

lemma failedRun_state:
  "runs failedRun
   \<and> map op_id (releasedOps (stateAfter failedRun)) = [0]
   \<and> map op_retries (releasedOps (stateAfter failedRun)) = [Finite 1]
   \<and> results (stateAfter failedRun) 0 = Rejected (Error ''connection lost'')"
  by (simp add: failedRun_def tab_steps startedOps_def releasedOps_def executing_def)

text \<open>
  C1. The claim holds of the code except in one point: the next operation starts once the
  closure of the previous one has returned, and the closure has no \<^verbatim>\<open>reject\<close> after
  its loop, as the fast path has its \<^verbatim>\<open>throw\<close>. With \<^verbatim>\<open>retries: 0\<close> the loop is not
  entered and the closure returns without settling its promise: after \<open>unsettledRun\<close>
  the second operation is executing while the promise of the first is still pending.
\<close>

theorem next_starts_while_previous_unsettled:
  "runs unsettledRun
   \<and> map op_id (startedOps (stateAfter unsettledRun)) = [0, 1]
   \<and> map op_id (releasedOps (stateAfter unsettledRun)) = [0]
   \<and> map op_id (map t_op (executing (stateAfter unsettledRun))) = [1]
   \<and> map t_phase (executing (stateAfter unsettledRun)) = [AwaitQuery 1]
   \<and> results (stateAfter unsettledRun) 0 = Pending"
  by (simp add: unsettledRun_def tab_steps startedOps_def releasedOps_def executing_def)

text \<open>
  C4. The claim holds for every retry count that is a whole number of at least 1, on both
  paths (\<open>retry_ceiling\<close>). It fails on the queued path for \<^verbatim>\<open>retries: 0\<close>: the loop of
  the closure is not entered, nothing calls \<^verbatim>\<open>resolve\<close> or \<^verbatim>\<open>reject\<close>, and
  when the event loop has come to rest the promise is still pending. The fast path has a
  \<^verbatim>\<open>throw\<close> after its loop and rejects the same call.
\<close>

theorem retries_zero_queued_promise_never_settles:
  "(\<forall>m. quiescent (drained (2 + m) alwaysFailing (samplePlatform None None None)
                     [readCall (Some (Finite 0)) False])
       \<and> results (drained (2 + m) alwaysFailing (samplePlatform None None None)
                     [readCall (Some (Finite 0)) False]) 0 = Pending
       \<and> attemptsOf 0 (drained (2 + m) alwaysFailing (samplePlatform None None None)
                     [readCall (Some (Finite 0)) False]) = [])
   \<and> results (stateAfter (submit [readCall (Some (Finite 0)) True])) 0
       = Rejected (Error ''Query failed after retries'')"
proof -
  let ?env = "samplePlatform None None None"
  let ?s2 = "drained 2 alwaysFailing ?env [readCall (Some (Finite 0)) False]"
  have q: "quiescent ?s2 \<and> results ?s2 0 = Pending \<and> attemptsOf 0 ?s2 = []"
    by (simp add: drained_def numeral_2_eq_2 nextEvent_def tab_steps quiescent_def
        attemptsOf_def)
  have d: "drained (2 + m) alwaysFailing ?env [readCall (Some (Finite 0)) False] = ?s2" for m
  proof -
    have "drained (2 + m) alwaysFailing ?env [readCall (Some (Finite 0)) False]
          = drain m alwaysFailing ?env ?s2"
      by (simp add: drained_def numeral_2_eq_2 nextEvent_def tab_steps)
    also have "\<dots> = ?s2" using q by (simp add: drain_quiescent)
    finally show ?thesis .
  qed
  have f: "results (stateAfter (submit [readCall (Some (Finite 0)) True])) 0
       = Rejected (Error ''Query failed after retries'')"
    using readCall_not_modifying by (simp add: tab_steps)
  from q d f show ?thesis by simp
qed

text \<open>
  The same defect shows with a retry count that is not whole. With \<^verbatim>\<open>retries: 1.5\<close>
  the one attempt fails, \<^verbatim>\<open>1 < 1.5\<close> sends the closure into the back-off instead of
  \<^verbatim>\<open>reject\<close>, and \<^verbatim>\<open>2 <= 1.5\<close> ends the loop: the promise stays pending. On the fast
  path the \<^verbatim>\<open>throw\<close> after the loop rejects it with the error of the attempt.
\<close>

lemma fractional_retries_queued_promise_never_settles:
  "(\<exists>n. \<forall>m. quiescent (drained (n + m) alwaysFailing (samplePlatform None None None)
                     [readCall (Some (Finite (3 / 2))) False])
       \<and> results (drained (n + m) alwaysFailing (samplePlatform None None None)
                     [readCall (Some (Finite (3 / 2))) False]) 0 = Pending
       \<and> attemptsOf 0 (drained (n + m) alwaysFailing (samplePlatform None None None)
                     [readCall (Some (Finite (3 / 2))) False]) = [Issued 0 1, Waited 0 100])
   \<and> (\<exists>n. \<forall>m. results (drained (n + m) alwaysFailing (samplePlatform None None None)
                     [readCall (Some (Finite (3 / 2))) True]) 0
                 = Rejected (Error ''connection lost''))"
proof -
  let ?env = "samplePlatform None None None"
  let ?q = "readCall (Some (Finite (3 / 2))) False"
  let ?f = "readCall (Some (Finite (3 / 2))) True"
  have fl: "\<lfloor>3 / 2 :: rat\<rfloor> = 1" by (rule floor_unique) simp_all
  have n: "attemptsAllowed (Finite (3 / 2)) = 1" "\<not> wholeCount (Finite (3 / 2))"
    "leNumber 1 (Finite (3 / 2))"
    by (simp_all add: attemptsAllowed_def wholeCount_def fl)
  have qc: "\<forall>c \<in> set [?q]. queuedCall c" "\<forall>c \<in> set [?q]. boundedCall c"
    by (simp_all add: queuedCall_def boundedCall_def readCall_def)
  have oq: "queuedOutcome (alwaysFailing 0) (op_retries (operationOf 0 ([?q] ! 0))) = Pending"
    by (simp add: queuedOutcome_def n readCall_def alwaysFailing_def)
  have tq: "attemptsTrace Issued 0 (alwaysFailing 0) (op_retries (operationOf 0 ([?q] ! 0)))
            = [Issued 0 1, Waited 0 100]"
    by (simp add: attemptsTrace_def n readCall_def alwaysFailing_def backoffDelay_def)
  from queue_drained[OF qc, of alwaysFailing ?env] obtain k where
    k: "\<forall>m. quiescent (drained (k + m) alwaysFailing ?env [?q])
      \<and> (\<forall>j<length [?q].
            results (drained (k + m) alwaysFailing ?env [?q]) j
              = queuedOutcome (alwaysFailing j) (op_retries (operationOf j ([?q] ! j)))
            \<and> attemptsOf j (drained (k + m) alwaysFailing ?env [?q])
              = attemptsTrace Issued j (alwaysFailing j) (op_retries (operationOf j ([?q] ! j))))"
    by blast
  have a: "\<forall>m. quiescent (drained (k + m) alwaysFailing ?env [?q])
       \<and> results (drained (k + m) alwaysFailing ?env [?q]) 0 = Pending
       \<and> attemptsOf 0 (drained (k + m) alwaysFailing ?env [?q]) = [Issued 0 1, Waited 0 100]"
  proof
    fix m
    from k have "quiescent (drained (k + m) alwaysFailing ?env [?q])"
      and "results (drained (k + m) alwaysFailing ?env [?q]) 0
              = queuedOutcome (alwaysFailing 0) (op_retries (operationOf 0 ([?q] ! 0)))"
      and "attemptsOf 0 (drained (k + m) alwaysFailing ?env [?q])
              = attemptsTrace Issued 0 (alwaysFailing 0) (op_retries (operationOf 0 ([?q] ! 0)))"
      by auto
    then show "quiescent (drained (k + m) alwaysFailing ?env [?q])
       \<and> results (drained (k + m) alwaysFailing ?env [?q]) 0 = Pending
       \<and> attemptsOf 0 (drained (k + m) alwaysFailing ?env [?q]) = [Issued 0 1, Waited 0 100]"
      unfolding oq tq by simp
  qed
  have nf: "\<not> queuedCall ?f" "boundedCall ?f"
    using readCall_not_modifying by (simp_all add: queuedCall_def boundedCall_def readCall_def)
  have of: "fastOutcome (alwaysFailing 0) (op_retries (operationOf 0 ?f))
            = Rejected (Error ''connection lost'')"
    by (simp add: fastOutcome_def n readCall_def alwaysFailing_def)
  from fast_drained[OF nf, of alwaysFailing ?env] obtain l where
    "\<forall>m. results (drained (l + m) alwaysFailing ?env [?f]) 0
            = fastOutcome (alwaysFailing 0) (op_retries (operationOf 0 ?f))"
    by blast
  then have b: "\<forall>m. results (drained (l + m) alwaysFailing ?env [?f]) 0
                 = Rejected (Error ''connection lost'')"
    unfolding of .
  from a b show ?thesis by blast
qed

text \<open>
  C5, as the specification words it, fails when the connection is lost. After
  \<open>droppedRun\<close> the first operation has been rejected with the error of its third
  attempt; the operation behind it was thrown away by \<^verbatim>\<open>cleanupDatabase\<close> while it
  waited, was never started, and its promise is pending; and nothing is left that could
  start it.
\<close>

theorem cleanup_discards_operations_behind_failing_one_counterexample:
  "runs droppedRun
   \<and> quiescent (stateAfter droppedRun)
   \<and> nextEvent alwaysFailing (samplePlatform None None None) (stateAfter droppedRun) = None
   \<and> map op_id (submittedOps (stateAfter droppedRun)) = [0, 1]
   \<and> map op_id (startedOps (stateAfter droppedRun)) = [0]
   \<and> map op_id (discardedOps (stateAfter droppedRun)) = [1]
   \<and> attemptsOf 0 (stateAfter droppedRun)
       = [Issued 0 1, Waited 0 100, Issued 0 2, Waited 0 200, Issued 0 3]
   \<and> attemptsOf 1 (stateAfter droppedRun) = []
   \<and> results (stateAfter droppedRun) 0 = Rejected (Error ''connection lost'')
   \<and> results (stateAfter droppedRun) 1 = Pending"
  by (simp add: droppedRun_def tab_steps submittedOps_def startedOps_def discardedOps_def
      attemptsOf_def quiescent_def nextEvent_def backoffDelay_def)

text \<open>
  C5, amended. For every queue of operations with retry counts other than
  \<^verbatim>\<open>Infinity\<close> and every connection that answers each query, with a result or an
  error, the event loop, as long as \<^verbatim>\<open>cleanupDatabase\<close> does not run, starts and
  releases every operation in order and comes to rest with an empty queue and the flag
  cleared. The promise of each operation
  is what its own attempts give: an operation whose attempts all fail, its retry count a
  whole number of at least 1, is rejected with the error of its last attempt, and the
  promises of the operations behind it are settled by their own answers. When a closure
  has returned, the \<^verbatim>\<open>finally\<close> block clears the flag and schedules
  \<^verbatim>\<open>processPendingTransactions\<close> with \<^verbatim>\<open>setTimeout\<close>: no operation is started
  in that turn. And in every state the tab can reach, \<^verbatim>\<open>cleanupDatabase\<close> or not, an
  operation that was submitted has been started, waits in the queue, or was thrown away
  by \<^verbatim>\<open>cleanupDatabase\<close>; the started operations are in the order of submission.
\<close>

theorem failing_operation_does_not_stall_queue:
  assumes "\<forall>c \<in> set cs. queuedCall c \<and> boundedCall c"
  shows "(\<exists>n. \<forall>m. runs (submit cs)
      \<and> quiescent (drained (n + m) db env cs)
      \<and> startedOps (drained (n + m) db env cs) = operationsOf 0 cs
      \<and> releasedOps (drained (n + m) db env cs) = operationsOf 0 cs
      \<and> (\<forall>k<length cs.
            results (drained (n + m) db env cs) k
              = queuedOutcome (db k) (op_retries (operationOf k (cs ! k))))
      \<and> (\<forall>k<length cs. \<forall>r.
            op_retries (operationOf k (cs ! k)) = Finite (of_nat r) \<and> 1 \<le> r
            \<and> (\<forall>a. 1 \<le> a \<and> a \<le> r \<longrightarrow> db k a = Inl (err a))
            \<longrightarrow> results (drained (n + m) db env cs) k = Rejected (err r)))
   \<and> (\<forall>i s s1. transactionSettled i s = Some s1 \<longrightarrow>
         \<not> isTransactionInProgress s1 \<and> timers s1 = timers s @ [ProcessQueue]
         \<and> startedOps s1 = startedOps s \<and> pendingTransactions s1 = pendingTransactions s)
   \<and> (\<forall>s. reachable s \<longrightarrow>
         set (submittedOps s)
           = set (startedOps s) \<union> set (pendingTransactions s) \<union> set (discardedOps s)
         \<and> subseq (startedOps s @ pendingTransactions s) (submittedOps s))"
proof -
  from assms have q: "\<forall>c \<in> set cs. queuedCall c" and b: "\<forall>c \<in> set cs. boundedCall c"
    by blast+
  from queue_drained[OF q b, of db env] obtain n where
    n: "\<forall>m. runs (submit cs)
      \<and> quiescent (drained (n + m) db env cs)
      \<and> submittedOps (drained (n + m) db env cs) = operationsOf 0 cs
      \<and> startedOps (drained (n + m) db env cs) = operationsOf 0 cs
      \<and> releasedOps (drained (n + m) db env cs) = operationsOf 0 cs
      \<and> (\<forall>k<length cs.
            results (drained (n + m) db env cs) k
              = queuedOutcome (db k) (op_retries (operationOf k (cs ! k)))
            \<and> attemptsOf k (drained (n + m) db env cs)
              = attemptsTrace Issued k (db k) (op_retries (operationOf k (cs ! k))))"
    by blast
  have "\<forall>m. runs (submit cs)
      \<and> quiescent (drained (n + m) db env cs)
      \<and> startedOps (drained (n + m) db env cs) = operationsOf 0 cs
      \<and> releasedOps (drained (n + m) db env cs) = operationsOf 0 cs
      \<and> (\<forall>k<length cs.
            results (drained (n + m) db env cs) k
              = queuedOutcome (db k) (op_retries (operationOf k (cs ! k))))
      \<and> (\<forall>k<length cs. \<forall>r.
            op_retries (operationOf k (cs ! k)) = Finite (of_nat r) \<and> 1 \<le> r
            \<and> (\<forall>a. 1 \<le> a \<and> a \<le> r \<longrightarrow> db k a = Inl (err a))
            \<longrightarrow> results (drained (n + m) db env cs) k = Rejected (err r))"
  proof
    fix m
    from n have m: "runs (submit cs)"
      "quiescent (drained (n + m) db env cs)"
      "startedOps (drained (n + m) db env cs) = operationsOf 0 cs"
      "releasedOps (drained (n + m) db env cs) = operationsOf 0 cs"
      "\<forall>k<length cs. results (drained (n + m) db env cs) k
              = queuedOutcome (db k) (op_retries (operationOf k (cs ! k)))"
      by blast+
    have "\<forall>k<length cs. \<forall>r.
            op_retries (operationOf k (cs ! k)) = Finite (of_nat r) \<and> 1 \<le> r
            \<and> (\<forall>a. 1 \<le> a \<and> a \<le> r \<longrightarrow> db k a = Inl (err a))
            \<longrightarrow> results (drained (n + m) db env cs) k = Rejected (err r)"
    proof (intro allI impI)
      fix k r assume k: "k < length cs"
        and f: "op_retries (operationOf k (cs ! k)) = Finite (of_nat r) \<and> 1 \<le> r
            \<and> (\<forall>a. 1 \<le> a \<and> a \<le> r \<longrightarrow> db k a = Inl (err a))"
      from f have "queuedOutcome (db k) (Finite (of_nat r)) = Rejected (err r)"
        by (intro queuedOutcome_failing) blast+
      with f have "queuedOutcome (db k) (op_retries (operationOf k (cs ! k))) = Rejected (err r)"
        by (simp del: operationOf_fields)
      with m(5) k show "results (drained (n + m) db env cs) k = Rejected (err r)"
        by (simp del: operationOf_fields)
    qed
    with m show "runs (submit cs)
      \<and> quiescent (drained (n + m) db env cs)
      \<and> startedOps (drained (n + m) db env cs) = operationsOf 0 cs
      \<and> releasedOps (drained (n + m) db env cs) = operationsOf 0 cs
      \<and> (\<forall>k<length cs.
            results (drained (n + m) db env cs) k
              = queuedOutcome (db k) (op_retries (operationOf k (cs ! k))))
      \<and> (\<forall>k<length cs. \<forall>r.
            op_retries (operationOf k (cs ! k)) = Finite (of_nat r) \<and> 1 \<le> r
            \<and> (\<forall>a. 1 \<le> a \<and> a \<le> r \<longrightarrow> db k a = Inl (err a))
            \<longrightarrow> results (drained (n + m) db env cs) k = Rejected (err r))"
      by blast
  qed
  moreover have "\<forall>s. reachable s \<longrightarrow>
         set (submittedOps s)
           = set (startedOps s) \<union> set (pendingTransactions s) \<union> set (discardedOps s)
         \<and> subseq (startedOps s @ pendingTransactions s) (submittedOps s)"
    using inv_reachable unfolding queueInvariant_def by blast
  ultimately show ?thesis
    using transactionSettled_fresh_turn by blast
qed

theorem failing_operation_does_not_stall_queue_witness:
  "queuedCall (writeCall (Some (Finite 2)) False) \<and> boundedCall (writeCall (Some (Finite 2)) False)
   \<and> queuedCall (readCall None False) \<and> boundedCall (readCall None False)
   \<and> (\<exists>n. \<forall>m.
        results (drained (n + m) firstFails (samplePlatform None None None)
                   [writeCall (Some (Finite 2)) False, readCall None False]) 0
          = Rejected (Error ''constraint violated'')
        \<and> results (drained (n + m) firstFails (samplePlatform None None None)
                   [writeCall (Some (Finite 2)) False, readCall None False]) 1
          = Fulfilled \<lparr>rows = Some []\<rparr>
        \<and> map op_id (startedOps (drained (n + m) firstFails (samplePlatform None None None)
                   [writeCall (Some (Finite 2)) False, readCall None False])) = [0, 1])
   \<and> reachable (stateAfter droppedRun)
   \<and> subseq (startedOps (stateAfter droppedRun) @ pendingTransactions (stateAfter droppedRun))
        (submittedOps (stateAfter droppedRun))"
proof -
  let ?cs = "[writeCall (Some (Finite 2)) False, readCall None False]"
  let ?env = "samplePlatform None None None"
  have q: "queuedCall (writeCall (Some (Finite 2)) False)"
    "boundedCall (writeCall (Some (Finite 2)) False)"
    "queuedCall (readCall None False)" "boundedCall (readCall None False)"
    by (simp_all add: queuedCall_def boundedCall_def writeCall_def readCall_def)
  then have qa: "\<forall>c \<in> set ?cs. queuedCall c \<and> boundedCall c" by simp
  have three: "attemptsAllowed (Finite 3) = 3" "wholeCount (Finite 3)"
    using whole_number(1,2)[of 3] by simp_all
  have o1: "queuedOutcome (firstFails 1) (op_retries (operationOf 1 (?cs ! 1)))
            = Fulfilled \<lparr>rows = Some []\<rparr>"
    by (simp add: queuedOutcome_def firstFails_def readCall_def three eval_nat_numeral)
  have f0: "op_retries (operationOf 0 (?cs ! 0)) = Finite (of_nat 2) \<and> (1::nat) \<le> 2
            \<and> (\<forall>a. 1 \<le> a \<and> a \<le> 2
                  \<longrightarrow> firstFails 0 a = Inl ((\<lambda>a. Error ''constraint violated'') a))"
    by (simp add: firstFails_def writeCall_def)
  have ids: "map op_id (operationsOf 0 ?cs) = [0, 1]"
    by (simp add: operationsOf_Cons)
  have dr: "runs droppedRun"
    by (simp add: droppedRun_def tab_steps backoffDelay_def)
  then have re: "reachable (stateAfter droppedRun)" by (rule runs_reachable)
  note inst = failing_operation_does_not_stall_queue
         [OF qa, of firstFails ?env "\<lambda>a. Error ''constraint violated''"]
  from inst obtain n where n: "\<forall>m. runs (submit ?cs)
      \<and> quiescent (drained (n + m) firstFails ?env ?cs)
      \<and> startedOps (drained (n + m) firstFails ?env ?cs) = operationsOf 0 ?cs
      \<and> releasedOps (drained (n + m) firstFails ?env ?cs) = operationsOf 0 ?cs
      \<and> (\<forall>k<length ?cs.
            results (drained (n + m) firstFails ?env ?cs) k
              = queuedOutcome (firstFails k) (op_retries (operationOf k (?cs ! k))))
      \<and> (\<forall>k<length ?cs. \<forall>r.
            op_retries (operationOf k (?cs ! k)) = Finite (of_nat r) \<and> 1 \<le> r
            \<and> (\<forall>a. 1 \<le> a \<and> a \<le> r
                  \<longrightarrow> firstFails k a = Inl (Error ''constraint violated''))
            \<longrightarrow> results (drained (n + m) firstFails ?env ?cs) k
                  = Rejected (Error ''constraint violated''))"
    by blast
  from inst re have sq: "subseq (startedOps (stateAfter droppedRun)
                            @ pendingTransactions (stateAfter droppedRun))
                          (submittedOps (stateAfter droppedRun))"
    by blast
  have "\<forall>m.
        results (drained (n + m) firstFails ?env ?cs) 0 = Rejected (Error ''constraint violated'')
        \<and> results (drained (n + m) firstFails ?env ?cs) 1 = Fulfilled \<lparr>rows = Some []\<rparr>
        \<and> map op_id (startedOps (drained (n + m) firstFails ?env ?cs)) = [0, 1]"
  proof
    fix m
    from n have a: "startedOps (drained (n + m) firstFails ?env ?cs) = operationsOf 0 ?cs"
      and b: "\<forall>k<length ?cs.
            results (drained (n + m) firstFails ?env ?cs) k
              = queuedOutcome (firstFails k) (op_retries (operationOf k (?cs ! k)))"
      and c: "\<forall>k<length ?cs. \<forall>r.
            op_retries (operationOf k (?cs ! k)) = Finite (of_nat r) \<and> 1 \<le> r
            \<and> (\<forall>a. 1 \<le> a \<and> a \<le> r
                  \<longrightarrow> firstFails k a = Inl (Error ''constraint violated''))
            \<longrightarrow> results (drained (n + m) firstFails ?env ?cs) k
                  = Rejected (Error ''constraint violated'')"
      by blast+
    have l0: "0 < length ?cs" and l1: "1 < length ?cs" by simp_all
    from c l0 f0 have r0: "results (drained (n + m) firstFails ?env ?cs) 0
          = Rejected (Error ''constraint violated'')" by blast
    from b l1 o1 have r1: "results (drained (n + m) firstFails ?env ?cs) 1
          = Fulfilled \<lparr>rows = Some []\<rparr>" by metis
    from r0 r1 a ids
    show "results (drained (n + m) firstFails ?env ?cs) 0 = Rejected (Error ''constraint violated'')
        \<and> results (drained (n + m) firstFails ?env ?cs) 1 = Fulfilled \<lparr>rows = Some []\<rparr>
        \<and> map op_id (startedOps (drained (n + m) firstFails ?env ?cs)) = [0, 1]"
      by simp
  qed
  with q re sq show ?thesis by blast
qed

text \<open>
  A retry count of \<^verbatim>\<open>Infinity\<close> is left out above because the loop of such an
  operation ends only with a success: on a connection that fails every query it goes on
  for ever, the flag stays set, and the operation behind it is never started.
\<close>

lemma retrying_step:
  assumes "retrying s"
  shows "\<exists>e s'. nextEvent alwaysFailing env s = Some e \<and> step e s = Some s' \<and> retrying s'"
proof -
  from assms obtain t where t: "transactions s = [t]" "op_id (t_op t) = 0"
      "op_retries (t_op t) = PositiveInfinity"
    and ph: "case t_phase t of
                 AwaitQuery a \<Rightarrow> timers s = []
               | Backoff a \<Rightarrow> timers s = [ResumeQueued 0 (backoffDelay a)]
               | Returned \<Rightarrow> False"
    and r: "isTransactionInProgress s" "map op_id (pendingTransactions s) = [1]"
      "map op_id (startedOps s) = [0]" "results s 0 = Pending" "results s 1 = Pending"
    unfolding retrying_def by (auto split: list.splits)
  show ?thesis
  proof (cases "t_phase t")
    case (AwaitQuery a)
    with ph have a: "t_phase t = AwaitQuery a" "timers s = []" by simp_all
    let ?e = "QueryAnswered 0 (alwaysFailing 0 a) env"
    let ?s' = "queuedAnswered t a (alwaysFailing 0 a) env s"
    have "nextEvent alwaysFailing env s = Some ?e"
      using t a by (simp add: nextEvent_def Let_def)
    moreover have "step ?e s = Some ?s'"
      using t a by (simp add: queryAnswered_def)
    moreover have "retrying ?s'"
      using t a r
      by (simp add: retrying_def queuedAnswered_def alwaysFailing_def Let_def)
    ultimately show ?thesis by blast
  next
    case (Backoff a)
    with ph have a: "t_phase t = Backoff a" "timers s = [ResumeQueued 0 (backoffDelay a)]"
      by simp_all
    let ?e = "TimerFired (ResumeQueued 0 (backoffDelay a))"
    let ?s' = "(remember (Issued 0 (Suc a)) (s\<lparr>timers := []\<rparr>))
                 \<lparr>transactions := [t\<lparr>t_phase := AwaitQuery (Suc a)\<rparr>]\<rparr>"
    have "nextEvent alwaysFailing env s = Some ?e"
      using t a by (simp add: nextEvent_def Let_def)
    moreover have "step ?e s = Some ?s'"
      using t a by (simp add: timerFired_def queuedResumed_def queuedLoop_def Let_def)
    moreover have "retrying ?s'"
      using t a r by (simp add: retrying_def)
    ultimately show ?thesis by blast
  next
    case Returned
    with ph show ?thesis by simp
  qed
qed

lemma retrying_drain: "retrying s \<Longrightarrow> retrying (drain n alwaysFailing env s)"
proof (induction n arbitrary: s)
  case 0
  then show ?case by simp
next
  case (Suc n)
  from retrying_step[OF Suc.prems, of env] obtain e s' where
    "nextEvent alwaysFailing env s = Some e" "step e s = Some s'" "retrying s'"
    by blast
  with Suc.IH show ?case by simp
qed

lemma infinite_retries_hold_the_queue:
  "map op_id (startedOps (drained n alwaysFailing (samplePlatform None None None)
                 [readCall (Some PositiveInfinity) False, readCall None False])) = [0]
   \<and> isTransactionInProgress (drained n alwaysFailing (samplePlatform None None None)
                 [readCall (Some PositiveInfinity) False, readCall None False])
   \<and> results (drained n alwaysFailing (samplePlatform None None None)
                 [readCall (Some PositiveInfinity) False, readCall None False]) 0 = Pending
   \<and> results (drained n alwaysFailing (samplePlatform None None None)
                 [readCall (Some PositiveInfinity) False, readCall None False]) 1 = Pending"
proof -
  have "retrying (stateAfter (submit [readCall (Some PositiveInfinity) False,
                                       readCall None False]))"
    by (simp add: retrying_def tab_steps startedOps_def)
  then have "retrying (drained n alwaysFailing (samplePlatform None None None)
                 [readCall (Some PositiveInfinity) False, readCall None False])"
    unfolding drained_def by (rule retrying_drain)
  then show ?thesis unfolding retrying_def by simp
qed

text \<open>
  C6. A call with \<^verbatim>\<open>skipQueue\<close> and a mutating statement is appended to the queue
  (in the same turn it is still waiting there or has been taken from it and called), and
  nothing happens on the fast path; a call bypasses the queue exactly when
  \<^verbatim>\<open>skipQueue\<close> is set and the statement is not mutating.
\<close>

theorem skipQueue_only_for_reads:
  "(c_skipQueue c \<and> isModifyingQuery (c_query c) \<longrightarrow>
      submittedOps (executeQuery c GuardPassed s) = submittedOps s @ [operationOf (nextCall s) c]
      \<and> (operationOf (nextCall s) c \<in> set (pendingTransactions (executeQuery c GuardPassed s))
         \<or> operationOf (nextCall s) c \<in> t_op ` set (transactions (executeQuery c GuardPassed s)))
      \<and> fastCalls (executeQuery c GuardPassed s) = fastCalls s
      \<and> fastAttempts (executeQuery c GuardPassed s) = fastAttempts s)
   \<and> (submittedOps (executeQuery c GuardPassed s) = submittedOps s
        \<longleftrightarrow> c_skipQueue c \<and> \<not> isModifyingQuery (c_query c))"
proof -
  let ?op = "operationOf (nextCall s) c"
  let ?q = "remember (Enqueued ?op)
            (s\<lparr>nextCall := Suc (nextCall s),
               pendingTransactions := pendingTransactions s @ [?op]\<rparr>)"
  have queued: "queuedCall c \<Longrightarrow>
      submittedOps (executeQuery c GuardPassed s) = submittedOps s @ [?op]
      \<and> (?op \<in> set (pendingTransactions (executeQuery c GuardPassed s))
         \<or> ?op \<in> t_op ` set (transactions (executeQuery c GuardPassed s)))
      \<and> fastCalls (executeQuery c GuardPassed s) = fastCalls s
      \<and> fastAttempts (executeQuery c GuardPassed s) = fastAttempts s"
  proof -
    assume q: "queuedCall c"
    have "?op \<in> set (pendingTransactions ?q)" by simp
    from processPendingTransactions_keeps[OF this]
    show ?thesis
      unfolding executeQuery_queued[OF q]
      by (simp add: processPendingTransactions_frame fastAttempts_simps)
  qed
  have fast: "\<not> queuedCall c \<Longrightarrow> submittedOps (executeQuery c GuardPassed s) = submittedOps s"
    by (simp add: queuedCall_def executeQuery_def Let_def fastLoop_frame)
  have a: "c_skipQueue c \<and> isModifyingQuery (c_query c) \<Longrightarrow> queuedCall c"
    by (simp add: queuedCall_def)
  have b: "queuedCall c \<longleftrightarrow> \<not> (c_skipQueue c \<and> \<not> isModifyingQuery (c_query c))"
    by (simp add: queuedCall_def)
  show ?thesis
    using queued fast a b by (cases "queuedCall c") auto
qed

theorem skipQueue_only_for_reads_witness:
  "c_skipQueue (writeCall None True) \<and> isModifyingQuery (c_query (writeCall None True))
   \<and> submittedOps (executeQuery (writeCall None True) GuardPassed initialTab)
       = [operationOf 0 (writeCall None True)]
   \<and> fastAttempts (executeQuery (writeCall None True) GuardPassed initialTab) = []
   \<and> submittedOps (executeQuery (readCall None True) GuardPassed initialTab) = []"
proof -
  have m: "c_skipQueue (writeCall None True) \<and> isModifyingQuery (c_query (writeCall None True))"
    using writeCall_modifying by (simp add: writeCall_def)
  have r: "c_skipQueue (readCall None True) \<and> \<not> isModifyingQuery (c_query (readCall None True))"
    using readCall_not_modifying by (simp add: readCall_def)
  have i: "submittedOps initialTab = []" "fastAttempts initialTab = []" "nextCall initialTab = 0"
    by (simp_all add: submittedOps_def fastAttempts_def initialTab_def)
  show ?thesis
    using skipQueue_only_for_reads [of "writeCall None True" initialTab]
      skipQueue_only_for_reads [of "readCall None True" initialTab] m r i
    by simp
qed


text \<open>
  C10. A call whose retry count admits no first attempt (0, a negative count, and also a
  fraction below 1, \<^verbatim>\<open>NaN\<close> and \<^verbatim>\<open>-Infinity\<close>), made in any state the tab can
  reach, once it is past the initialisation guard: on the fast path its promise is
  rejected at once with the error \<open>Query failed after retries\<close> and no attempt is made;
  on the queued path no attempt is ever made and the promise stays pending whatever
  happens afterwards; and the queue goes on: all operations of a queue, whatever their
  retry counts short of \<^verbatim>\<open>Infinity\<close>, are started and released.
\<close>

theorem nonpositive_retries:
  assumes "c_retries c = Some r" and "\<not> leNumber 1 r" and "reachable s"
  shows "(\<not> queuedCall c \<longrightarrow>
            results (executeQuery c GuardPassed s) (nextCall s)
              = Rejected (Error ''Query failed after retries'')
            \<and> attemptsOf (nextCall s) (executeQuery c GuardPassed s) = []
            \<and> history (executeQuery c GuardPassed s) = history s)
     \<and> (queuedCall c \<longrightarrow>
          (\<forall>es s'. run es (executeQuery c GuardPassed s) = Some s' \<longrightarrow>
              results s' (nextCall s) = Pending \<and> attemptsOf (nextCall s) s' = []))
     \<and> ((\<forall>c' \<in> set cs. queuedCall c' \<and> boundedCall c') \<longrightarrow>
          (\<exists>n. \<forall>m. quiescent (drained (n + m) db env cs)
             \<and> startedOps (drained (n + m) db env cs) = operationsOf 0 cs
             \<and> releasedOps (drained (n + m) db env cs) = operationsOf 0 cs
             \<and> (\<forall>k<length cs. cs ! k = c \<longrightarrow>
                   results (drained (n + m) db env cs) k = Pending
                   \<and> attemptsOf k (drained (n + m) db env cs) = [])))"
proof (intro conjI impI)
  let ?n = "nextCall s"
  let ?op = "operationOf ?n c"
  have r: "op_retries ?op = r" using assms(1) by simp
  from assms(3) have ci: "callInvariant s" by (rule call_reachable)
  then have fresh: "results s ?n = Pending" "attemptsOf ?n s = []"
    by (simp_all add: callInvariant_def)
  {
    assume "\<not> queuedCall c"
    then have e: "executeQuery c GuardPassed s = fastLoop ?op 1 None (s\<lparr>nextCall := Suc ?n\<rparr>)"
      by (simp add: queuedCall_def executeQuery_def Let_def)
    show "results (executeQuery c GuardPassed s) ?n = Rejected (Error ''Query failed after retries'')"
      unfolding e using assms(1,2) fresh by (simp add: fastLoop_def Let_def settle_def)
    show "attemptsOf ?n (executeQuery c GuardPassed s) = []"
      unfolding e using assms(1,2) fresh by (simp add: fastLoop_def Let_def)
    show "history (executeQuery c GuardPassed s) = history s"
      unfolding e using assms(1,2) by (simp add: fastLoop_def Let_def)
  }
  {
    assume q: "queuedCall c"
    show "\<forall>es s'. run es (executeQuery c GuardPassed s) = Some s' \<longrightarrow>
              results s' ?n = Pending \<and> attemptsOf ?n s' = []"
    proof (intro allI impI)
      fix es s' assume run: "run es (executeQuery c GuardPassed s) = Some s'"
      have "reachable (executeQuery c GuardPassed s)"
        using reachable_step[OF assms(3), of "Call c GuardPassed"] by simp
      then have rs': "reachable s'" using run by (rule reachable_run)
      have "?op \<in> set (submittedOps (executeQuery c GuardPassed s))"
        unfolding executeQuery_queued[OF q]
        by (simp add: processPendingTransactions_frame)
      with run_submitted[OF run] have mem: "?op \<in> set (submittedOps s')" by blast
      from call_reachable[OF rs'] mem r assms(2)
      have "results s' (op_id ?op) = Pending \<and> attemptsOf (op_id ?op) s' = []"
        unfolding callInvariant_def by force
      then show "results s' ?n = Pending \<and> attemptsOf ?n s' = []" by simp
    qed
  }
  {
    assume all: "\<forall>c' \<in> set cs. queuedCall c' \<and> boundedCall c'"
    then have aq: "\<forall>c' \<in> set cs. queuedCall c'" and ab: "\<forall>c' \<in> set cs. boundedCall c'"
      by blast+
    from queue_drained[OF aq ab, of db env] obtain n where
      n: "\<forall>m. runs (submit cs)
        \<and> quiescent (drained (n + m) db env cs)
        \<and> submittedOps (drained (n + m) db env cs) = operationsOf 0 cs
        \<and> startedOps (drained (n + m) db env cs) = operationsOf 0 cs
        \<and> releasedOps (drained (n + m) db env cs) = operationsOf 0 cs
        \<and> (\<forall>k<length cs.
              results (drained (n + m) db env cs) k
                = queuedOutcome (db k) (op_retries (operationOf k (cs ! k)))
              \<and> attemptsOf k (drained (n + m) db env cs)
                = attemptsTrace Issued k (db k) (op_retries (operationOf k (cs ! k))))"
      by blast
    have "\<forall>m. quiescent (drained (n + m) db env cs)
             \<and> startedOps (drained (n + m) db env cs) = operationsOf 0 cs
             \<and> releasedOps (drained (n + m) db env cs) = operationsOf 0 cs
             \<and> (\<forall>k<length cs. cs ! k = c \<longrightarrow>
                   results (drained (n + m) db env cs) k = Pending
                   \<and> attemptsOf k (drained (n + m) db env cs) = [])"
    proof
      fix m
      from n have a: "quiescent (drained (n + m) db env cs)"
        "startedOps (drained (n + m) db env cs) = operationsOf 0 cs"
        "releasedOps (drained (n + m) db env cs) = operationsOf 0 cs"
        and b: "\<forall>k<length cs.
              results (drained (n + m) db env cs) k
                = queuedOutcome (db k) (op_retries (operationOf k (cs ! k)))
              \<and> attemptsOf k (drained (n + m) db env cs)
                = attemptsTrace Issued k (db k) (op_retries (operationOf k (cs ! k)))"
        by blast+
      have "\<forall>k<length cs. cs ! k = c \<longrightarrow>
                   results (drained (n + m) db env cs) k = Pending
                   \<and> attemptsOf k (drained (n + m) db env cs) = []"
      proof (intro allI impI)
        fix k assume k: "k < length cs" "cs ! k = c"
        have "op_retries (operationOf k (cs ! k)) = r" using k assms(1) by simp
        with b k(1) assms(2)
        show "results (drained (n + m) db env cs) k = Pending
                   \<and> attemptsOf k (drained (n + m) db env cs) = []"
          by (simp add: queuedOutcome_none attemptsTrace_def)
      qed
      with a show "quiescent (drained (n + m) db env cs)
             \<and> startedOps (drained (n + m) db env cs) = operationsOf 0 cs
             \<and> releasedOps (drained (n + m) db env cs) = operationsOf 0 cs
             \<and> (\<forall>k<length cs. cs ! k = c \<longrightarrow>
                   results (drained (n + m) db env cs) k = Pending
                   \<and> attemptsOf k (drained (n + m) db env cs) = [])"
        by blast
    qed
    then show "\<exists>n. \<forall>m. quiescent (drained (n + m) db env cs)
             \<and> startedOps (drained (n + m) db env cs) = operationsOf 0 cs
             \<and> releasedOps (drained (n + m) db env cs) = operationsOf 0 cs
             \<and> (\<forall>k<length cs. cs ! k = c \<longrightarrow>
                   results (drained (n + m) db env cs) k = Pending
                   \<and> attemptsOf k (drained (n + m) db env cs) = [])"
      by blast
  }
qed

theorem nonpositive_retries_witness:
  "c_retries (readCall (Some (Finite 0)) True) = Some (Finite 0) \<and> \<not> leNumber 1 (Finite 0)
   \<and> reachable initialTab
   \<and> \<not> queuedCall (readCall (Some (Finite 0)) True)
   \<and> queuedCall (readCall (Some (Finite 0)) False) \<and> boundedCall (readCall (Some (Finite 0)) False)
   \<and> queuedCall (readCall None False) \<and> boundedCall (readCall None False)
   \<and> results (executeQuery (readCall (Some (Finite 0)) True) GuardPassed initialTab) 0
       = Rejected (Error ''Query failed after retries'')
   \<and> results (stateAfter unsettledRun) 0 = Pending
   \<and> attemptsOf 0 (stateAfter unsettledRun) = []
   \<and> (\<exists>n. \<forall>m. map op_id (releasedOps (drained (n + m) alwaysFailing (samplePlatform None None None)
                     [readCall (Some (Finite 0)) False, readCall None False])) = [0, 1]
          \<and> results (drained (n + m) alwaysFailing (samplePlatform None None None)
                     [readCall (Some (Finite 0)) False, readCall None False]) 0 = Pending)"
proof -
  let ?f = "readCall (Some (Finite 0)) True" let ?q = "readCall (Some (Finite 0)) False"
  let ?cs = "[readCall (Some (Finite 0)) False, readCall None False]"
  let ?env = "samplePlatform None None None"
  have cf: "c_retries ?f = Some (Finite 0)" and cq: "c_retries ?q = Some (Finite 0)"
    by (simp_all add: readCall_def)
  have z: "\<not> leNumber 1 (Finite 0)" by simp
  have nf: "\<not> queuedCall ?f"
    using readCall_not_modifying by (simp add: queuedCall_def readCall_def)
  have qq: "queuedCall ?q" "queuedCall (readCall None False)"
    "boundedCall ?q" "boundedCall (readCall None False)"
    by (simp_all add: queuedCall_def boundedCall_def readCall_def)
  have n0: "nextCall initialTab = 0" by (simp add: initialTab_def)
  have run: "run (tl unsettledRun) (executeQuery ?q GuardPassed initialTab)
             = Some (stateAfter unsettledRun)"
    by (simp add: unsettledRun_def tab_steps)
  have ids: "map op_id (operationsOf 0 ?cs) = [0, 1]" by (simp add: operationsOf_Cons)
  have k0: "0 < length ?cs \<and> ?cs ! 0 = ?q" by simp
  note f = nonpositive_retries [OF cf z initial_reachable, of "[]" alwaysFailing ?env]
  note q = nonpositive_retries [OF cq z initial_reachable, of ?cs alwaysFailing ?env]
  from f nf n0 have a: "results (executeQuery ?f GuardPassed initialTab) 0
       = Rejected (Error ''Query failed after retries'')" by simp
  from q qq(1) n0 run have b: "results (stateAfter unsettledRun) 0 = Pending
       \<and> attemptsOf 0 (stateAfter unsettledRun) = []" by simp
  from q qq obtain n where n: "\<forall>m. quiescent (drained (n + m) alwaysFailing ?env ?cs)
             \<and> startedOps (drained (n + m) alwaysFailing ?env ?cs) = operationsOf 0 ?cs
             \<and> releasedOps (drained (n + m) alwaysFailing ?env ?cs) = operationsOf 0 ?cs
             \<and> (\<forall>k<length ?cs. ?cs ! k = ?q \<longrightarrow>
                   results (drained (n + m) alwaysFailing ?env ?cs) k = Pending
                   \<and> attemptsOf k (drained (n + m) alwaysFailing ?env ?cs) = [])"
    by auto
  have c: "\<forall>m. map op_id (releasedOps (drained (n + m) alwaysFailing ?env ?cs)) = [0, 1]
          \<and> results (drained (n + m) alwaysFailing ?env ?cs) 0 = Pending"
  proof
    fix m
    from n have "releasedOps (drained (n + m) alwaysFailing ?env ?cs) = operationsOf 0 ?cs"
      and "\<forall>k<length ?cs. ?cs ! k = ?q \<longrightarrow>
                   results (drained (n + m) alwaysFailing ?env ?cs) k = Pending
                   \<and> attemptsOf k (drained (n + m) alwaysFailing ?env ?cs) = []"
      by blast+
    with ids k0 show "map op_id (releasedOps (drained (n + m) alwaysFailing ?env ?cs)) = [0, 1]
          \<and> results (drained (n + m) alwaysFailing ?env ?cs) 0 = Pending"
      by metis
  qed
  from cf z nf qq a b c initial_reachable show ?thesis by blast
qed

section \<open>Properties of the session\<close>

lemmas session_steps =
  sessionAfter_def initializeDatabase_def fetched_def compiled_def instanceCreated_def
  verified_def openChannel_def resumed_def initCallOf_def setPhase_def initFailed_def cleanupDatabase_def
  initialSession_def successfulInit_def okResponse_def fullConfig_def noConfig_def
  DEFAULT_CONFIG_def Let_def


lemma ready_call:
  assumes "isInitialized s" "dbInstance s = Some h"
  shows "initializeDatabase config s =
           s\<lparr>nextInit := Suc (nextInit s),
              initResults := initResults s @ [(nextInit s, Inr (Some h))]\<rparr>"
  using assms by (simp add: initializeDatabase_def Let_def)

lemma initStep_results:
  "initStep e s = Some s' \<Longrightarrow> \<exists>rs. initResults s' = initResults s @ rs"
  by (cases e)
     (auto simp: initializeDatabase_def fetched_def compiled_def instanceCreated_def
        verified_def openChannel_def resumed_def setPhase_def initFailed_def cleanupDatabase_def Let_def
        split: option.splits sum.splits if_splits prod.splits channelSetup.splits)

lemma initRun_results:
  "initRun es s = Some s' \<Longrightarrow> \<exists>rs. initResults s' = initResults s @ rs"
proof (induction es arbitrary: s)
  case Nil
  then show ?case by simp
next
  case (Cons e es)
  from Cons.prems obtain s1 where s1: "initStep e s = Some s1" "initRun es s1 = Some s'"
    by (auto split: option.splits)
  from initStep_results[OF s1(1)] Cons.IH[OF s1(2)] show ?case by auto
qed

lemma dbPromise_settles_once:
  assumes "dbPromise s = Some r" "initRun es s = Some s'"
  shows "dbPromise s' = Some r"
proof -
  from initRun_results[OF assms(2)] obtain rs where "initResults s' = initResults s @ rs"
    by blast
  with assms(1) show ?thesis by (simp add: dbPromise_def map_add_Some_iff)
qed

lemma ready_calls:
  assumes "isInitialized s" "dbInstance s = Some h"
  shows "\<exists>s'. initRun (map InitCalled configs) s = Some s'
      \<and> initResults s' = initResults s
          @ map (\<lambda>i. (i, Inr (Some h))) [nextInit s..<nextInit s + length configs]
      \<and> s' = s\<lparr>nextInit := nextInit s', initResults := initResults s'\<rparr>"
  using assms
proof (induction configs arbitrary: s)
  case Nil
  then show ?case by simp
next
  case (Cons c cs)
  let ?s1 = "s\<lparr>nextInit := Suc (nextInit s),
              initResults := initResults s @ [(nextInit s, Inr (Some h))]\<rparr>"
  have e: "initializeDatabase c s = ?s1" using Cons.prems by (rule ready_call)
  have p: "isInitialized ?s1" "dbInstance ?s1 = Some h" using Cons.prems by simp_all
  from Cons.IH[OF p] obtain s' where
    s': "initRun (map InitCalled cs) ?s1 = Some s'"
      "initResults s' = initResults ?s1
          @ map (\<lambda>i. (i, Inr (Some h))) [nextInit ?s1..<nextInit ?s1 + length cs]"
      "s' = ?s1\<lparr>nextInit := nextInit s', initResults := initResults s'\<rparr>"
    by blast
  have u: "[nextInit s..<nextInit s + length (c # cs)]
           = nextInit s # [Suc (nextInit s)..<Suc (nextInit s) + length cs]"
    by (simp add: upt_conv_Cons del: upt_Suc)
  have r: "initResults s' = initResults s
          @ map (\<lambda>i. (i, Inr (Some h))) [nextInit s..<nextInit s + length (c # cs)]"
    unfolding u using s'(2) by simp
  have f: "s' = s\<lparr>nextInit := nextInit s', initResults := initResults s'\<rparr>"
    by (subst s'(3)) simp
  have "initRun (map InitCalled (c # cs)) s = Some s'" using e s'(1) by simp
  with r f show ?case by blast
qed


lemma loaded_state:
  "isInitialized loaded \<and> dbInstance loaded = Some 0
   \<and> dbPromise loaded = Some (Inr (Some 0))
   \<and> fetchLog loaded = [''/pglite.wasm'', ''/pglite.data'']
   \<and> initResults loaded = [(0, Inr (Some 0))] \<and> nextInit loaded = 1"
  by (simp add: loaded_def dbPromise_def session_steps)


text \<open>
  C3, as the specification words it, fails for calls that overlap:
  \<^verbatim>\<open>initializeDatabase\<close> tests only \<^verbatim>\<open>isInitialized && dbInstance\<close>, which does not
  hold before the first call has finished. When a second call starts while the first
  waits for its fetches, the two assets are fetched twice, two connections are created,
  the calls return different handles and two health-check timers run.
\<close>

theorem overlapping_calls_counterexample:
  "fetchLog (sessionAfter overlappingInits)
     = [''/pglite.wasm'', ''/pglite.data'', ''/pglite.wasm'', ''/pglite.data'']
   \<and> initResults (sessionAfter overlappingInits) = [(0, Inr (Some 0)), (1, Inr (Some 1))]
   \<and> instancesCreated (sessionAfter overlappingInits) = 2
   \<and> intervals (sessionAfter overlappingInits) = [0, 1]"
  by (simp add: overlappingInits_def session_steps)


text \<open>
  C3, amended. While a connection is ready (\<^verbatim>\<open>isInitialized\<close> holds and
  \<^verbatim>\<open>dbInstance\<close> is set), a call of \<^verbatim>\<open>initializeDatabase\<close> returns that connection
  at once and changes nothing else: any number of calls made one after the other fetch
  nothing, create no connection and start no timer. Callers that share \<^verbatim>\<open>dbPromise\<close>,
  the promise of the one call made when the module is loaded, all get what that call
  settled with, and it settles once; after a successful load the two assets have been
  fetched exactly once.
\<close>

theorem initializeDatabase_idempotent_when_ready:
  "(isInitialized s \<and> dbInstance s = Some h \<longrightarrow>
      initializeDatabase config s =
        s\<lparr>nextInit := Suc (nextInit s),
           initResults := initResults s @ [(nextInit s, Inr (Some h))]\<rparr>)
   \<and> (isInitialized s \<and> dbInstance s = Some h \<longrightarrow>
        (\<exists>s'. initRun (map InitCalled configs) s = Some s'
           \<and> fetchLog s' = fetchLog s
           \<and> instancesCreated s' = instancesCreated s
           \<and> intervals s' = intervals s
           \<and> dbInstance s' = Some h
           \<and> initResults s' = initResults s
               @ map (\<lambda>i. (i, Inr (Some h))) [nextInit s..<nextInit s + length configs]))
   \<and> (dbPromise s = Some r \<and> initRun es s = Some s1 \<longrightarrow> dbPromise s1 = Some r)
   \<and> isInitialized loaded \<and> dbInstance loaded = Some 0
   \<and> dbPromise loaded = Some (Inr (Some 0))
   \<and> fetchLog loaded = [''/pglite.wasm'', ''/pglite.data'']"
proof -
  have a: "isInitialized s \<and> dbInstance s = Some h \<longrightarrow>
      initializeDatabase config s =
        s\<lparr>nextInit := Suc (nextInit s),
           initResults := initResults s @ [(nextInit s, Inr (Some h))]\<rparr>"
    using ready_call by blast
  have b: "isInitialized s \<and> dbInstance s = Some h \<longrightarrow>
        (\<exists>s'. initRun (map InitCalled configs) s = Some s'
           \<and> fetchLog s' = fetchLog s
           \<and> instancesCreated s' = instancesCreated s
           \<and> intervals s' = intervals s
           \<and> dbInstance s' = Some h
           \<and> initResults s' = initResults s
               @ map (\<lambda>i. (i, Inr (Some h))) [nextInit s..<nextInit s + length configs])"
  proof
    assume r: "isInitialized s \<and> dbInstance s = Some h"
    then have "isInitialized s" "dbInstance s = Some h" by simp_all
    from ready_calls[OF this, of configs] obtain s' where
      s': "initRun (map InitCalled configs) s = Some s'"
        "initResults s' = initResults s
          @ map (\<lambda>i. (i, Inr (Some h))) [nextInit s..<nextInit s + length configs]"
        "s' = s\<lparr>nextInit := nextInit s', initResults := initResults s'\<rparr>"
      by blast
    have "fetchLog s' = fetchLog s" by (subst s'(3)) simp
    moreover have "instancesCreated s' = instancesCreated s" by (subst s'(3)) simp
    moreover have "intervals s' = intervals s" by (subst s'(3)) simp
    moreover have "dbInstance s' = Some h" using r by (subst s'(3)) simp
    ultimately show "\<exists>s'. initRun (map InitCalled configs) s = Some s'
           \<and> fetchLog s' = fetchLog s
           \<and> instancesCreated s' = instancesCreated s
           \<and> intervals s' = intervals s
           \<and> dbInstance s' = Some h
           \<and> initResults s' = initResults s
               @ map (\<lambda>i. (i, Inr (Some h))) [nextInit s..<nextInit s + length configs]"
      using s'(1,2) by blast
  qed
  have c: "dbPromise s = Some r \<and> initRun es s = Some s1 \<longrightarrow> dbPromise s1 = Some r"
    using dbPromise_settles_once by blast
  from a b c loaded_state show ?thesis by blast
qed

theorem initializeDatabase_idempotent_when_ready_witness:
  "isInitialized loaded \<and> dbInstance loaded = Some 0
   \<and> (\<exists>s'. initRun (map InitCalled [noConfig, noConfig]) loaded = Some s'
          \<and> fetchLog s' = [''/pglite.wasm'', ''/pglite.data'']
          \<and> initResults s' = [(0, Inr (Some 0)), (1, Inr (Some 0)), (2, Inr (Some 0))]
          \<and> dbPromise s' = Some (Inr (Some 0)))"
proof -
  have l: "isInitialized loaded \<and> dbInstance loaded = Some 0" using loaded_state by simp
  have u: "[nextInit loaded..<nextInit loaded + length [noConfig, noConfig]] = [1, 2]"
    using loaded_state by (simp add: upt_conv_Cons)
  from initializeDatabase_idempotent_when_ready
         [of loaded 0 noConfig "[noConfig, noConfig]" "Inr (Some 0)"] l
  obtain s' where s': "initRun (map InitCalled [noConfig, noConfig]) loaded = Some s'"
           "fetchLog s' = fetchLog loaded"
           "initResults s' = initResults loaded
               @ map (\<lambda>i. (i, Inr (Some 0)))
                   [nextInit loaded..<nextInit loaded + length [noConfig, noConfig]]"
    by blast
  from initializeDatabase_idempotent_when_ready
         [of loaded 0 noConfig "[]" "Inr (Some 0)" "map InitCalled [noConfig, noConfig]" s']
       s'(1) loaded_state
  have p: "dbPromise s' = Some (Inr (Some 0))" by blast
  have r: "initResults s' = [(0, Inr (Some 0)), (1, Inr (Some 0)), (2, Inr (Some 0))]"
    using s'(3) loaded_state unfolding u by simp
  have f: "fetchLog s' = [''/pglite.wasm'', ''/pglite.data'']"
    using s'(2) loaded_state by simp
  from l s'(1) f r p show ?thesis by blast
qed

end
